theory Spec2Isabelle
  imports Complex_Main "HOL-Library.Sublist"
begin

section \<open>Strings of the host language\<close>

text \<open>
  A JavaScript string is a sequence of UTF-16 code units. The model writes it as a
  \<^typ>\<open>string\<close>; one \<^typ>\<open>char\<close> stands for one code unit below 256 (the Latin-1
  range), so documents are restricted to that range. The character classes below are the
  ECMAScript ones cut down to it.
\<close>

definition LF :: char where
  "LF = CHR 0x0A"

definition CR :: char where
  "CR = CHR 0x0D"

text \<open>\<^verbatim>\<open>\s\<close>, and what \<^verbatim>\<open>trim()\<close> strips: white space and line terminators.\<close>

definition is_space :: "char \<Rightarrow> bool" where
  "is_space c = (c = CHR 0x09 \<or> c = CHR 0x0A \<or> c = CHR 0x0B \<or> c = CHR 0x0C \<or> c = CHR 0x0D
     \<or> c = CHR 0x20 \<or> c = CHR 0xA0)"

text \<open>What \<^verbatim>\<open>.\<close> refuses and \<^verbatim>\<open>$\<close> (flag m) stops before: a line terminator.\<close>

definition is_line_terminator :: "char \<Rightarrow> bool" where
  "is_line_terminator c = (c = LF \<or> c = CR)"

definition is_digit :: "char \<Rightarrow> bool" where
  "is_digit c = (let n = (of_char c :: nat) in 48 \<le> n \<and> n \<le> 57)"

definition is_alpha :: "char \<Rightarrow> bool" where
  "is_alpha c = (let n = (of_char c :: nat) in (65 \<le> n \<and> n \<le> 90) \<or> (97 \<le> n \<and> n \<le> 122))"

text \<open>\<^verbatim>\<open>\w\<close> is \<^verbatim>\<open>[A-Za-z0-9_]\<close>.\<close>

definition is_word :: "char \<Rightarrow> bool" where
  "is_word c = (is_alpha c \<or> is_digit c \<or> c = CHR ''_'')"

text \<open>\<^verbatim>\<open>toLowerCase()\<close> on the Latin-1 range: A-Z and the accented capitals but the
  multiplication sign.\<close>

definition lower_char :: "char \<Rightarrow> char" where
  "lower_char c = (let n = (of_char c :: nat) in
     if (65 \<le> n \<and> n \<le> 90) \<or> (192 \<le> n \<and> n \<le> 222 \<and> n \<noteq> 215) then char_of (n + 32) else c)"

definition toLowerCase :: "string \<Rightarrow> string" where
  "toLowerCase s = map lower_char s"

definition trim :: "string \<Rightarrow> string" where
  "trim s = rev (dropWhile is_space (rev (dropWhile is_space s)))"

fun startsWith :: "string \<Rightarrow> string \<Rightarrow> bool" where
  "startsWith s [] = True"
| "startsWith [] (p # ps) = False"
| "startsWith (c # cs) (p # ps) = (c = p \<and> startsWith cs ps)"

text \<open>\<^verbatim>\<open>s.includes(p)\<close>: \<open>p\<close> occurs in \<open>s\<close> as a contiguous run.\<close>

fun js_includes :: "string \<Rightarrow> string \<Rightarrow> bool" where
  "js_includes [] p = (p = [])"
| "js_includes (c # cs) p = (startsWith (c # cs) p \<or> js_includes cs p)"

text \<open>The index of the first occurrence of \<open>p\<close> in the string, if there is one.\<close>

fun find_sub :: "string \<Rightarrow> string \<Rightarrow> nat option" where
  "find_sub p [] = (if p = [] then Some 0 else None)"
| "find_sub p (c # cs) =
     (if startsWith (c # cs) p then Some 0 else map_option Suc (find_sub p cs))"

text \<open>\<^verbatim>\<open>replace(/\s+/g, ' ')\<close>: every maximal run of white space becomes one blank.\<close>

function collapse_ws :: "string \<Rightarrow> string" where
  "collapse_ws [] = []"
| "collapse_ws (c # cs) =
     (if is_space c then CHR '' '' # collapse_ws (dropWhile is_space cs)
      else c # collapse_ws cs)"
  by pat_completeness auto
termination
  by (relation "measure length") (auto simp: le_imp_less_Suc length_dropWhile_le)

text \<open>
  \<^verbatim>\<open>replace(/\/\*+|\*+\/|\/\/+|#+/g, '')\<close>: at each position the four alternatives are
  tried in order; a run of stars is removed only when a slash precedes or follows it.
\<close>

function strip_delimiters :: "string \<Rightarrow> string" where
  "strip_delimiters [] = []"
| "strip_delimiters (c # cs) =
     (if c = CHR ''/'' \<and> startsWith cs ''*''
        then strip_delimiters (dropWhile (\<lambda>x. x = CHR ''*'') cs)
      else if c = CHR ''*'' \<and> startsWith (dropWhile (\<lambda>x. x = CHR ''*'') cs) ''/''
        then strip_delimiters (tl (dropWhile (\<lambda>x. x = CHR ''*'') cs))
      else if c = CHR ''/'' \<and> startsWith cs ''/''
        then strip_delimiters (dropWhile (\<lambda>x. x = CHR ''/'') cs)
      else if c = CHR ''#''
        then strip_delimiters (dropWhile (\<lambda>x. x = CHR ''#'') cs)
      else c # strip_delimiters cs)"
  by pat_completeness auto
termination
proof (relation "measure length")
  show "wf (measure length)" by simp
next
  fix c :: char and cs :: string
  have "length (tl (dropWhile (\<lambda>x. x = CHR ''*'') cs)) \<le> length cs"
    using length_dropWhile_le [of "\<lambda>x. x = CHR ''*''" cs] by simp
  then show "(tl (dropWhile (\<lambda>x. x = CHR ''*'') cs), c # cs) \<in> measure length"
    by simp
qed (auto simp: le_imp_less_Suc length_dropWhile_le)

text \<open>
  \<^verbatim>\<open>split(/\s+/)\<close>: the pieces between the runs of white space; a leading or trailing run
  leaves an empty piece, and the empty string gives one empty piece.
\<close>

function split_ws :: "string \<Rightarrow> string list" where
  "split_ws s =
     (let w = takeWhile (\<lambda>c. \<not> is_space c) s; r = dropWhile (\<lambda>c. \<not> is_space c) s
      in if r = [] then [w] else w # split_ws (dropWhile is_space r))"
  by pat_completeness auto
termination
proof (relation "measure length")
  show "wf (measure length)" by simp
next
  fix s w r :: string
  assume r: "r = dropWhile (\<lambda>c. \<not> is_space c) s" and ne: "r \<noteq> []"
  from ne obtain x xs where x: "r = x # xs" by (cases r) auto
  have "\<not> \<not> is_space (hd r)"
    using ne unfolding r by (rule hd_dropWhile)
  then have "is_space x"
    unfolding x by simp
  then have "dropWhile is_space r = dropWhile is_space xs"
    using x by simp
  moreover have "length (dropWhile is_space xs) \<le> length xs"
    by (rule length_dropWhile_le)
  moreover have "length r \<le> length s"
    unfolding r by (rule length_dropWhile_le)
  ultimately show "(dropWhile is_space r, s) \<in> measure length"
    using x by simp
qed

declare split_ws.simps [simp del]

section \<open>The host's document\<close>

text \<open>
  The editor's document is not part of the repository. The model keeps what the code asks
  of it: the language id, the text, the lines (the text cut at line feeds, terminators
  left out), and the conversion of an offset to a line and a column. \<^verbatim>\<open>lineAt\<close> throws
  on a line the document does not have; here that is \<open>None\<close>.
\<close>

record position =
  line :: nat
  character :: nat

record vs_range =
  range_start :: position
  range_end :: position

record document =
  languageId :: string
  getText :: string

fun lines_of :: "string \<Rightarrow> string list" where
  "lines_of [] = [[]]"
| "lines_of (c # cs) =
     (if c = LF then [] # lines_of cs
      else (case lines_of cs of [] \<Rightarrow> [[c]] | l # ls \<Rightarrow> (c # l) # ls))"

definition lineCount :: "string \<Rightarrow> nat" where
  "lineCount t = length (lines_of t)"

definition lineAt :: "string \<Rightarrow> nat \<Rightarrow> string option" where
  "lineAt t n = (if n < lineCount t then Some (lines_of t ! n) else None)"

text \<open>
  \<^verbatim>\<open>positionAt(offset)\<close>: the position of offset \<open>k + 1\<close> in \<open>c # cs\<close> is the position
  of offset \<open>k\<close> in \<open>cs\<close>, one line down when \<open>c\<close> is a line feed, one column right when
  it still lies on the first line. An offset past the end gives the end.
\<close>

fun positionAt :: "string \<Rightarrow> nat \<Rightarrow> position" where
  "positionAt [] k = \<lparr>line = 0, character = 0\<rparr>"
| "positionAt (c # cs) 0 = \<lparr>line = 0, character = 0\<rparr>"
| "positionAt (c # cs) (Suc k) =
     (let p = positionAt cs k
      in if c = LF then p\<lparr>line := Suc (line p)\<rparr>
         else if line p = 0 then p\<lparr>character := Suc (character p)\<rparr>
         else p)"

section \<open>Language profiles\<close>

text \<open>
  The comment patterns of the table have two shapes only, so a pattern is kept by its
  literal parts: \<open>LineRest m\<close> is \<^verbatim>\<open>/m.*$/gm\<close>, and \<open>Blocks [(o, c), ...]\<close> is the
  alternation of \<^verbatim>\<open>/o[\s\S]*?c/g\<close>.
\<close>

datatype line_regex = LineRest string

datatype block_regex = Blocks "(string \<times> string) list"

record language_config =
  singleLine :: "line_regex option"
  multiLine :: "block_regex option"
  docBlock :: "block_regex option"
  lang_keywords :: "string list"

definition javascript_config :: language_config where
  "javascript_config = \<lparr>
     singleLine = Some (LineRest ''//''),
     multiLine = Some (Blocks [(''/*'', ''*/'')]),
     docBlock = Some (Blocks [(''/**'', ''*/'')]),
     lang_keywords = [''function'', ''const'', ''let'', ''var'', ''class'', ''if'', ''else'', ''for'',
       ''while'', ''return'', ''import'', ''export'']\<rparr>"

definition typescript_config :: language_config where
  "typescript_config = \<lparr>
     singleLine = Some (LineRest ''//''),
     multiLine = Some (Blocks [(''/*'', ''*/'')]),
     docBlock = Some (Blocks [(''/**'', ''*/'')]),
     lang_keywords = [''function'', ''const'', ''let'', ''var'', ''class'', ''interface'', ''type'',
       ''enum'', ''if'', ''else'', ''for'', ''while'', ''return'', ''import'', ''export'']\<rparr>"

definition python_config :: language_config where
  "python_config = \<lparr>
     singleLine = Some (LineRest ''#''),
     multiLine = Some (Blocks [([CHR 0x22, CHR 0x22, CHR 0x22], [CHR 0x22, CHR 0x22, CHR 0x22]),
       ([CHR 0x27, CHR 0x27, CHR 0x27], [CHR 0x27, CHR 0x27, CHR 0x27])]),
     docBlock = Some (Blocks [([CHR 0x22, CHR 0x22, CHR 0x22], [CHR 0x22, CHR 0x22, CHR 0x22])]),
     lang_keywords = [''def'', ''class'', ''if'', ''elif'', ''else'', ''for'', ''while'', ''return'',
       ''import'', ''from'', ''try'', ''except'']\<rparr>"

definition java_config :: language_config where
  "java_config = \<lparr>
     singleLine = Some (LineRest ''//''),
     multiLine = Some (Blocks [(''/*'', ''*/'')]),
     docBlock = Some (Blocks [(''/**'', ''*/'')]),
     lang_keywords = [''public'', ''private'', ''protected'', ''class'', ''interface'', ''if'', ''else'',
       ''for'', ''while'', ''return'', ''import'']\<rparr>"

definition csharp_config :: language_config where
  "csharp_config = \<lparr>
     singleLine = Some (LineRest ''//''),
     multiLine = Some (Blocks [(''/*'', ''*/'')]),
     docBlock = Some (Blocks [(''/**'', ''*/'')]),
     lang_keywords = [''public'', ''private'', ''protected'', ''class'', ''interface'', ''namespace'',
       ''using'', ''if'', ''else'', ''for'', ''while'', ''return'']\<rparr>"

definition html_config :: language_config where
  "html_config = \<lparr>
     singleLine = None,
     multiLine = Some (Blocks [(''<!--'', ''-->'')]),
     docBlock = None,
     lang_keywords = [''div'', ''span'', ''html'', ''head'', ''body'', ''script'', ''style'']\<rparr>"

definition css_config :: language_config where
  "css_config = \<lparr>
     singleLine = None,
     multiLine = Some (Blocks [(''/*'', ''*/'')]),
     docBlock = None,
     lang_keywords = [''class'', ''id'', ''color'', ''background'', ''margin'', ''padding'']\<rparr>"

text \<open>The language ids with a profile: the seven entries of the table and its five aliases.\<close>

definition registered_languages :: "string list" where
  "registered_languages = [''javascript'', ''typescript'', ''python'', ''java'', ''csharp'',
     ''html'', ''css'', ''javascriptreact'', ''typescriptreact'', ''c'', ''cpp'', ''xml'']"

text \<open>
  The table is a plain object, so the lookup \<^verbatim>\<open>configs[languageId]\<close> also finds what every
  object inherits. Such a member is no profile, but it is truthy: it passes the
  \<^verbatim>\<open>|| null\<close> and reads as a profile without patterns and without keywords.
\<close>

definition inherited_members :: "string list" where
  "inherited_members = [''constructor'', ''__proto__'', ''hasOwnProperty'', ''isPrototypeOf'',
     ''propertyIsEnumerable'', ''toLocaleString'', ''toString'', ''valueOf'',
     ''__defineGetter__'', ''__defineSetter__'', ''__lookupGetter__'', ''__lookupSetter__'']"

definition inherited_member_config :: language_config where
  "inherited_member_config = \<lparr>singleLine = None, multiLine = None, docBlock = None, lang_keywords = []\<rparr>"

definition getLanguageConfig :: "string \<Rightarrow> language_config option" where
  "getLanguageConfig l =
     (if l = ''javascript'' \<or> l = ''javascriptreact'' then Some javascript_config
      else if l = ''typescript'' \<or> l = ''typescriptreact'' then Some typescript_config
      else if l = ''python'' then Some python_config
      else if l = ''java'' \<or> l = ''c'' \<or> l = ''cpp'' then Some java_config
      else if l = ''csharp'' then Some csharp_config
      else if l = ''html'' \<or> l = ''xml'' then Some html_config
      else if l = ''css'' then Some css_config
      else if List.member inherited_members l then Some inherited_member_config
      else None)"

section \<open>Comment extraction\<close>

datatype comment_type = single | multi | docblock

record comment_context =
  previousLine :: string
  currentLine :: string
  nextLine :: string
  nextNonEmptyLine :: string
  indentLevel :: nat

text \<open>
  A comment as \<^verbatim>\<open>extractComments\<close> builds it. The object has no \<^verbatim>\<open>isDocBlock\<close>
  property; the classifier reads it all the same and finds \<^verbatim>\<open>undefined\<close>, which counts
  as false, so the field is \<open>False\<close> in every comment built here.
\<close>

record comment =
  c_type :: comment_type
  c_text :: string
  c_range :: vs_range
  lineNumber :: nat
  c_context :: comment_context
  isInlineComment :: bool
  isDocBlock :: bool

text \<open>The loop of \<^verbatim>\<open>getNextNonEmptyLine\<close>, over the lines from \<open>startLine\<close> on.\<close>

fun first_non_empty :: "string list \<Rightarrow> string" where
  "first_non_empty [] = []"
| "first_non_empty (l # ls) = (if length (trim l) > 0 then trim l else first_non_empty ls)"

definition getNextNonEmptyLine :: "string \<Rightarrow> nat \<Rightarrow> string" where
  "getNextNonEmptyLine t startLine = first_non_empty (drop startLine (lines_of t))"

definition getIndentLevel :: "string \<Rightarrow> nat" where
  "getIndentLevel l = length (takeWhile is_space l)"

definition getContext :: "string \<Rightarrow> nat \<Rightarrow> comment_context option" where
  "getContext t n =
     (case (if n > 0 then lineAt t (n - 1) else Some []) of
        None \<Rightarrow> None
      | Some prev \<Rightarrow>
     (case lineAt t n of
        None \<Rightarrow> None
      | Some cur \<Rightarrow>
     (case (if n + 1 < lineCount t then lineAt t (n + 1) else Some []) of
        None \<Rightarrow> None
      | Some nxt \<Rightarrow>
          Some \<lparr>previousLine = trim prev,
                currentLine = trim cur,
                nextLine = trim nxt,
                nextNonEmptyLine = getNextNonEmptyLine t (n + 1),
                indentLevel = getIndentLevel cur\<rparr>)))"

text \<open>
  The \<^verbatim>\<open>exec\<close> loop over \<^verbatim>\<open>/m.*$/gm\<close>: at the leftmost marker the match runs to the
  next line terminator or to the end of the text, and the search goes on behind it.
  Each match is kept with its offset. (A marker of the table is never empty, so neither
  is a match.)
\<close>

function scan_line :: "string \<Rightarrow> nat \<Rightarrow> string \<Rightarrow> (nat \<times> string) list" where
  "scan_line mk i [] = []"
| "scan_line mk i (c # cs) =
     (if mk \<noteq> [] \<and> startsWith (c # cs) mk
      then (let m = mk @ takeWhile (\<lambda>x. \<not> is_line_terminator x) (drop (length mk) (c # cs))
            in (i, m) # scan_line mk (i + length m) (drop (length m) (c # cs)))
      else scan_line mk (Suc i) cs)"
  by pat_completeness auto
termination
  by (relation "measure (\<lambda>(mk, i, s). length s)") auto

text \<open>
  One attempt of \<^verbatim>\<open>/o[\s\S]*?c|.../g\<close> at the start of \<open>s\<close>: the first alternative
  whose opener stands there and whose closer occurs behind it; the lazy star stops at the
  first closer.
\<close>

fun match_block :: "(string \<times> string) list \<Rightarrow> string \<Rightarrow> string option" where
  "match_block [] s = None"
| "match_block ((opener, closer) # alts) s =
     (if startsWith s opener
      then (case find_sub closer (drop (length opener) s) of
              Some k \<Rightarrow> Some (take (length opener + k + length closer) s)
            | None \<Rightarrow> match_block alts s)
      else match_block alts s)"

function scan_block :: "(string \<times> string) list \<Rightarrow> nat \<Rightarrow> string \<Rightarrow> (nat \<times> string) list" where
  "scan_block alts i [] = []"
| "scan_block alts i (c # cs) =
     (case match_block alts (c # cs) of
        None \<Rightarrow> scan_block alts (Suc i) cs
      | Some m \<Rightarrow>
          if m \<noteq> [] then (i, m) # scan_block alts (i + length m) (drop (length m) (c # cs))
          else scan_block alts (Suc i) cs)"
  by pat_completeness auto
termination
  by (relation "measure (\<lambda>(alts, i, s). length s)") auto

fun exec_line :: "line_regex \<Rightarrow> string \<Rightarrow> (nat \<times> string) list" where
  "exec_line (LineRest mk) t = scan_line mk 0 t"

fun exec_block :: "block_regex \<Rightarrow> string \<Rightarrow> (nat \<times> string) list" where
  "exec_block (Blocks alts) t = scan_block alts 0 t"

text \<open>The two objects pushed by \<^verbatim>\<open>extractComments\<close>, for a match at offset \<open>i\<close>.\<close>

definition single_comment :: "string \<Rightarrow> nat \<times> string \<Rightarrow> comment option" where
  "single_comment t im =
     (let startPos = positionAt t (fst im);
          endPos = positionAt t (fst im + length (snd im))
      in case getContext t (line startPos) of
           None \<Rightarrow> None
         | Some ctx \<Rightarrow>
             Some \<lparr>c_type = single,
                   c_text = snd im,
                   c_range = \<lparr>range_start = startPos, range_end = endPos\<rparr>,
                   lineNumber = line startPos,
                   c_context = ctx,
                   isInlineComment = (character startPos > 0),
                   isDocBlock = False\<rparr>)"

definition multi_comment :: "string \<Rightarrow> nat \<times> string \<Rightarrow> comment option" where
  "multi_comment t im =
     (let startPos = positionAt t (fst im);
          endPos = positionAt t (fst im + length (snd im))
      in case getContext t (line startPos) of
           None \<Rightarrow> None
         | Some ctx \<Rightarrow>
             Some \<lparr>c_type = multi,
                   c_text = snd im,
                   c_range = \<lparr>range_start = startPos, range_end = endPos\<rparr>,
                   lineNumber = line startPos,
                   c_context = ctx,
                   isInlineComment = False,
                   isDocBlock = False\<rparr>)"

text \<open>
  \<^verbatim>\<open>extractComments\<close>: no profile gives the empty list at once; otherwise the matches
  of the single-line pattern, then those of the multi-line pattern. The doc-block pattern
  of the profile is not read. \<open>None\<close> stands for an exception of the host's
  \<^verbatim>\<open>lineAt\<close>. (The count written to the statistics and the log line are left out.)
\<close>

definition extractComments :: "document \<Rightarrow> comment list option" where
  "extractComments d =
     (case getLanguageConfig (languageId d) of
        None \<Rightarrow> Some []
      | Some languageConfig \<Rightarrow>
          (case (case singleLine languageConfig of
                   None \<Rightarrow> Some []
                 | Some rx \<Rightarrow> those (map (single_comment (getText d)) (exec_line rx (getText d)))) of
             None \<Rightarrow> None
           | Some singles \<Rightarrow>
          (case (case multiLine languageConfig of
                   None \<Rightarrow> Some []
                 | Some rx \<Rightarrow> those (map (multi_comment (getText d)) (exec_block rx (getText d)))) of
             None \<Rightarrow> None
           | Some multis \<Rightarrow> Some (singles @ multis))))"

text \<open>The helper of the same class that \<^verbatim>\<open>extractComments\<close> never calls.\<close>

definition isInlineComment_helper :: "string \<Rightarrow> position \<Rightarrow> bool option" where
  "isInlineComment_helper t startPos =
     (case lineAt t (line startPos) of
        None \<Rightarrow> None
      | Some l \<Rightarrow> Some (length (trim (take (character startPos) l)) > 0))"

section \<open>Regular expressions of the classifier\<close>

text \<open>
  The classifier only asks whether a pattern matches (\<^verbatim>\<open>test\<close>), and its patterns have
  no back-references and no look-around, so a pattern is kept as a regular expression
  over character classes and matched by derivatives.
\<close>

datatype char_class = Lit char | CWord | CSpace | CDigit | NotLit char

fun class_has :: "char_class \<Rightarrow> char \<Rightarrow> bool" where
  "class_has (Lit a) c = (c = a)"
| "class_has CWord c = is_word c"
| "class_has CSpace c = is_space c"
| "class_has CDigit c = is_digit c"
| "class_has (NotLit a) c = (c \<noteq> a)"

datatype rx = Nul | Eps | Sym char_class | Seq rx rx | Alt rx rx | Star rx

text \<open>The notation of the source, built from these: \<^verbatim>\<open>r+\<close>, \<^verbatim>\<open>r?\<close>, \<^verbatim>\<open>r{3,}\<close>,
  \<^verbatim>\<open>r{1,3}\<close>, a literal string, a sequence and an alternation.\<close>

definition Plus :: "rx \<Rightarrow> rx" where
  "Plus r = Seq r (Star r)"

definition Opt :: "rx \<Rightarrow> rx" where
  "Opt r = Alt r Eps"

definition AtLeast3 :: "rx \<Rightarrow> rx" where
  "AtLeast3 r = Seq r (Seq r (Plus r))"

definition OneToThree :: "rx \<Rightarrow> rx" where
  "OneToThree r = Seq r (Opt (Seq r (Opt r)))"

definition Str :: "string \<Rightarrow> rx" where
  "Str s = foldr (\<lambda>c r. Seq (Sym (Lit c)) r) s Eps"

definition Cat :: "rx list \<Rightarrow> rx" where
  "Cat rs = foldr Seq rs Eps"

definition OneOf :: "string list \<Rightarrow> rx" where
  "OneOf ws = foldr (\<lambda>w r. Alt (Str w) r) ws Nul"

fun nullable :: "rx \<Rightarrow> bool" where
  "nullable Nul = False"
| "nullable Eps = True"
| "nullable (Sym k) = False"
| "nullable (Seq a b) = (nullable a \<and> nullable b)"
| "nullable (Alt a b) = (nullable a \<or> nullable b)"
| "nullable (Star a) = True"

text \<open>Sequence and alternation that drop the empty language, to keep derivatives small.\<close>

definition seq_rx :: "rx \<Rightarrow> rx \<Rightarrow> rx" where
  "seq_rx a b = (case a of Nul \<Rightarrow> Nul | Eps \<Rightarrow> b | _ \<Rightarrow> (case b of Nul \<Rightarrow> Nul | _ \<Rightarrow> Seq a b))"

definition alt_rx :: "rx \<Rightarrow> rx \<Rightarrow> rx" where
  "alt_rx a b = (case a of Nul \<Rightarrow> b | _ \<Rightarrow> (case b of Nul \<Rightarrow> a | _ \<Rightarrow> Alt a b))"

fun deriv :: "char \<Rightarrow> rx \<Rightarrow> rx" where
  "deriv c Nul = Nul"
| "deriv c Eps = Nul"
| "deriv c (Sym k) = (if class_has k c then Eps else Nul)"
| "deriv c (Seq a b) =
     (if nullable a then alt_rx (seq_rx (deriv c a) b) (deriv c b) else seq_rx (deriv c a) b)"
| "deriv c (Alt a b) = alt_rx (deriv c a) (deriv c b)"
| "deriv c (Star a) = seq_rx (deriv c a) (Star a)"

text \<open>The whole string matches; a prefix of the string matches; a part of it matches.\<close>

fun rx_match :: "rx \<Rightarrow> string \<Rightarrow> bool" where
  "rx_match r [] = nullable r"
| "rx_match r (c # cs) = rx_match (deriv c r) cs"

fun rx_prefix :: "rx \<Rightarrow> string \<Rightarrow> bool" where
  "rx_prefix r [] = nullable r"
| "rx_prefix r (c # cs) = (nullable r \<or> rx_prefix (deriv c r) cs)"

fun rx_search :: "rx \<Rightarrow> string \<Rightarrow> bool" where
  "rx_search r [] = nullable r"
| "rx_search r (c # cs) = (rx_prefix r (c # cs) \<or> rx_search r cs)"

text \<open>
  One top-level alternative of a pattern of the source, by its anchors (none of them has
  the flag m): \<open>Whole r\<close> is \<^verbatim>\<open>^r$\<close>, \<open>Prefix r\<close> is \<^verbatim>\<open>^r\<close>, \<open>Search r\<close> is
  \<^verbatim>\<open>r\<close>. A pattern is the list of its top-level alternatives.
\<close>

datatype pattern = Whole rx | Prefix rx | Search rx

fun pattern_test :: "pattern \<Rightarrow> string \<Rightarrow> bool" where
  "pattern_test (Whole r) s = rx_match r s"
| "pattern_test (Prefix r) s = rx_prefix r s"
| "pattern_test (Search r) s = rx_search r s"

definition regex_test :: "pattern list \<Rightarrow> string \<Rightarrow> bool" where
  "regex_test ps s = list_ex (\<lambda>p. pattern_test p s) ps"

section \<open>The classifier's predicates\<close>

definition cleanCommentText :: "string \<Rightarrow> string" where
  "cleanCommentText commentText = toLowerCase (trim (collapse_ws (strip_delimiters commentText)))"

definition criticalPatterns :: "string list" where
  "criticalPatterns = [
     ''eslint-disable'', ''eslint-enable'', ''jshint'', ''tslint'', ''prettier-ignore'',
     ''stylelint-disable'', ''stylelint-enable'',
     ''@ts-ignore'', ''@ts-expect-error'', ''@ts-check'', ''@ts-nocheck'',
     ''webpack:'', ''rollup:'', ''vite:'', ''esbuild:'',
     ''vue-ignore'', ''angular-ignore'', ''react-ignore'',
     ''copyright'', ''license'', ''mit license'', ''apache license'', ''gpl license'',
     ''todo:'', ''fixme:'', ''hack:'', ''note:'', ''warning:'', ''danger:'', ''important:'',
     ''bug:'', ''issue:'', ''ticket:'', ''jira:'', ''github:'',
     ''@param'', ''@returns'', ''@throws'', ''@deprecated'', ''@example'', ''@see'',
     ''@since'', ''@author'', ''@version'',
     ''#ifdef'', ''#ifndef'', ''#endif'', ''#pragma'',
     ''performance:'', ''optimization:'', ''benchmark:'', ''profiling:'',
     ''security:'', ''vulnerability:'', ''cve-'', ''sanitize:'', ''validate:'']"

definition isCriticalComment :: "string \<Rightarrow> bool" where
  "isCriticalComment cleanComment = list_ex (js_includes cleanComment) criticalPatterns"

definition docPatterns :: "string list" where
  "docPatterns = [
     ''explains'', ''describes'', ''represents'', ''implements'', ''algorithm'',
     ''strategy'', ''pattern'', ''approach'', ''method'', ''technique'',
     ''purpose:'', ''goal:'', ''objective:'', ''requirements:'', ''assumptions:'',
     ''preconditions:'', ''postconditions:'', ''side effects:'']"

definition isDocumentation :: "string \<Rightarrow> comment_context \<Rightarrow> bool" where
  "isDocumentation cleanComment ctx =
     (if length cleanComment < 10 then False
      else
        (let isAtFunctionStart =
               (js_includes (nextNonEmptyLine ctx) ''function'' \<or>
                js_includes (nextNonEmptyLine ctx) ''class'' \<or>
                js_includes (nextNonEmptyLine ctx) ''def '' \<or>
                js_includes (nextNonEmptyLine ctx) ''public '' \<or>
                js_includes (nextNonEmptyLine ctx) ''private '');
             hasComplexExplanation =
               (length cleanComment > 50 \<and>
                (js_includes cleanComment ''because'' \<or>
                 js_includes cleanComment ''however'' \<or>
                 js_includes cleanComment ''therefore'' \<or>
                 js_includes cleanComment ''algorithm'' \<or>
                 js_includes cleanComment ''implementation''))
         in list_ex (js_includes cleanComment) docPatterns \<or>
            (isAtFunctionStart \<and> length cleanComment > 20) \<or>
            hasComplexExplanation))"

definition codeSymbols :: "string list" where
  "codeSymbols = [''{'', ''}'', ''('', '')'', ''['', '']'', '';'', ''='', ''=='', ''==='', ''!='',
     ''!=='', ''&&'', ''||'', ''++'', ''--'']"

text \<open>\<^verbatim>\<open>/\w+\s*=\s*\w+/\<close>, \<^verbatim>\<open>/\w+\s*\([^)]*\)/\<close> and \<^verbatim>\<open>/(if|for|while|try)\s*\(/\<close>.\<close>

definition variableAssignmentRegex :: "pattern list" where
  "variableAssignmentRegex =
     [Search (Cat [Plus (Sym CWord), Star (Sym CSpace), Sym (Lit (CHR ''='')),
        Star (Sym CSpace), Plus (Sym CWord)])]"

definition functionCallRegex :: "pattern list" where
  "functionCallRegex =
     [Search (Cat [Plus (Sym CWord), Star (Sym CSpace), Sym (Lit (CHR ''('')),
        Star (Sym (NotLit (CHR '')''))), Sym (Lit (CHR '')''))])]"

definition codeFlowRegex :: "pattern list" where
  "codeFlowRegex =
     [Search (Cat [OneOf [''if'', ''for'', ''while'', ''try''], Star (Sym CSpace),
        Sym (Lit (CHR ''(''))])]"

definition symbolCount :: "string \<Rightarrow> nat" where
  "symbolCount cleanComment = length (filter (js_includes cleanComment) codeSymbols)"

definition keywordCount :: "string \<Rightarrow> string list \<Rightarrow> nat" where
  "keywordCount cleanComment kws =
     length (filter (\<lambda>keyword. js_includes cleanComment (keyword @ '' '') \<or>
                                js_includes cleanComment ('' '' @ keyword)) kws)"

text \<open>
  \<^verbatim>\<open>isCommentedCode\<close>. The operator count of the source is computed and never read,
  and is left out.
\<close>

definition isCommentedCode :: "string \<Rightarrow> language_config option \<Rightarrow> bool" where
  "isCommentedCode cleanComment languageConfig =
     (case languageConfig of
        None \<Rightarrow> False
      | Some cfg \<Rightarrow>
          if length cleanComment < 3 then False
          else
            (let hasCodeStructure = (symbolCount cleanComment \<ge> 3);
                 hasCodeKeywords = (keywordCount cleanComment (lang_keywords cfg) \<ge> 2);
                 hasVariableAssignment = regex_test variableAssignmentRegex cleanComment;
                 hasFunctionCall = regex_test functionCallRegex cleanComment;
                 hasCodeFlow = regex_test codeFlowRegex cleanComment
             in hasCodeStructure \<or> hasCodeKeywords \<or> hasVariableAssignment \<or>
                hasFunctionCall \<or> hasCodeFlow))"

subsection \<open>Redundancy score\<close>

definition is_alnum :: "char \<Rightarrow> bool" where
  "is_alnum c = (is_alpha c \<or> is_digit c)"

definition semanticPairs :: "(string \<times> string list) list" where
  "semanticPairs = [
     (''get'', [''fetch'', ''retrieve'', ''obtain'']),
     (''set'', [''assign'', ''update'', ''change'']),
     (''create'', [''make'', ''build'', ''generate'', ''new'']),
     (''delete'', [''remove'', ''destroy'', ''clear'']),
     (''check'', [''validate'', ''verify'', ''test'']),
     (''start'', [''begin'', ''init'', ''initialize'']),
     (''end'', [''finish'', ''complete'', ''stop''])]"

record match_counts =
  exactMatches :: nat
  partialMatches :: nat
  semanticMatches :: nat

text \<open>The body of the loop over the comment's words: the first two cases return early.\<close>

definition count_word :: "string list \<Rightarrow> match_counts \<Rightarrow> string \<Rightarrow> match_counts" where
  "count_word codeWords m commentWord =
     (if List.member codeWords commentWord
        then m\<lparr>exactMatches := exactMatches m + 1\<rparr>
      else if list_ex (\<lambda>codeWord. js_includes codeWord commentWord \<or>
                                   js_includes commentWord codeWord) codeWords
        then m\<lparr>partialMatches := partialMatches m + 1\<rparr>
      else m\<lparr>semanticMatches := semanticMatches m +
             length (filter (\<lambda>(key, synonyms). commentWord = key \<and>
                       list_ex (List.member codeWords) synonyms) semanticPairs)\<rparr>)"

text \<open>
  \<^verbatim>\<open>calculateRedundancyScore\<close>. The source computes in binary floating point; the model
  computes the same expression in the rationals.
\<close>

definition calculateRedundancyScore :: "string \<Rightarrow> comment_context \<Rightarrow> rat" where
  "calculateRedundancyScore cleanComment ctx =
     (if length cleanComment < 3 \<or> nextNonEmptyLine ctx = [] then 0
      else
        (let nextLine = map (\<lambda>c. if is_alnum c then c else CHR '' '')
                          (toLowerCase (nextNonEmptyLine ctx));
             commentWords = filter (\<lambda>word. length word > 2) (split_ws cleanComment);
             codeWords = filter (\<lambda>word. length word > 2) (split_ws nextLine)
         in if length commentWords = 0 \<or> length codeWords = 0 then 0
            else
              (let m = foldl (count_word codeWords)
                         \<lparr>exactMatches = 0, partialMatches = 0, semanticMatches = 0\<rparr> commentWords;
                   totalWords = length commentWords;
                   redundancyScore =
                     (of_nat (exactMatches m) * 1 + of_nat (partialMatches m) * (7 / 10) +
                      of_nat (semanticMatches m) * (1 / 2)) / of_nat totalWords
               in min redundancyScore (95 / 100))))"

subsection \<open>Noise, outdated, trivial, empty, duplicate, debug\<close>

definition noisePatterns :: "pattern list list" where
  "noisePatterns = [
     [Whole (OneOf [''test'', ''testing'', ''debug'', ''debugging''])],
     [Whole (OneOf [''temp'', ''temporary'', ''tmp''])],
     [Whole (OneOf [''old'', ''deprecated'', ''unused''])],
     [Whole (Alt (Str ''comment'') (Seq (Str ''comment'') (Opt (Sym (Lit (CHR ''s''))))))],
     [Whole (Alt (Str ''code'') (Seq (Str ''code'') (Opt (Sym (Lit (CHR ''s''))))))],
     [Whole (OneOf [''fix'', ''fixed'', ''fixes''])],
     [Whole (OneOf [''change'', ''changed'', ''changes''])],
     [Whole (OneOf [''update'', ''updated'', ''updates''])],
     [Whole (OneToThree (Seq (Plus (Sym CWord)) (Star (Sym CSpace))))],
     [Prefix (AtLeast3 (Sym (Lit (CHR ''.'')))), Search (AtLeast3 (Sym (Lit (CHR ''-'')))),
      Search (AtLeast3 (Sym (Lit (CHR ''='')))), Search (AtLeast3 (Sym (Lit (CHR ''*''))))],
     [Whole (Plus (Sym CDigit)),
      Prefix (Cat [Opt (Sym (Lit (CHR ''v''))), Plus (Sym CDigit), Sym (Lit (CHR ''.'')),
        Plus (Sym CDigit)])]]"

definition isNoiseComment :: "string \<Rightarrow> bool" where
  "isNoiseComment cleanComment =
     (list_ex (\<lambda>pattern. regex_test pattern cleanComment) noisePatterns \<or>
      length cleanComment \<le> 2)"

definition outdatedIndicators :: "string list" where
  "outdatedIndicators = [
     ''old version'', ''previous version'', ''legacy'', ''deprecated'',
     ''no longer'', ''not used'', ''unused'', ''obsolete'',
     ''will be removed'', ''to be deleted'', ''remove this'',
     ''temporary fix'', ''quick fix'', ''workaround'']"

definition isOutdatedComment :: "string \<Rightarrow> comment_context \<Rightarrow> bool" where
  "isOutdatedComment cleanComment ctx = list_ex (js_includes cleanComment) outdatedIndicators"

definition word_after :: "string list \<Rightarrow> rx" where
  "word_after ws = Cat [OneOf ws, Str '' '', Plus (Sym CWord)]"

definition trivialPatterns :: "pattern list list" where
  "trivialPatterns = [
     [Whole (word_after [''increment'', ''decrement''])],
     [Whole (word_after [''add'', ''subtract'', ''multiply'', ''divide''])],
     [Whole (word_after [''open'', ''close''])],
     [Whole (word_after [''show'', ''hide''])],
     [Whole (word_after [''enable'', ''disable''])],
     [Whole (word_after [''start'', ''stop''])],
     [Whole (Cat [Str ''set '', Plus (Sym CWord), Str '' to '', Plus (Sym CWord)])],
     [Whole (Cat [Plus (Sym CWord), Str '' equals '', Plus (Sym CWord)])],
     [Whole (Cat [Str ''assign '', Plus (Sym CWord), Str '' to '', Plus (Sym CWord)])],
     [Whole (Cat [OneOf [''loop'', ''iterate''], Str '' through '', Plus (Sym CWord)])],
     [Whole (Cat [Str ''check if '', Plus (Sym CWord), Str '' is '', Plus (Sym CWord)])],
     [Whole (Cat [Str ''return '', Plus (Sym CWord)])],
     [Whole (Cat [Str ''call '', Plus (Sym CWord)])],
     [Whole (Str ''constructor'')],
     [Whole (Str ''getter'')],
     [Whole (Str ''setter'')],
     [Whole (Str ''main function'')],
     [Whole (Str ''helper function'')],
     [Whole (Str ''utility function'')]]"

definition isTrivialComment :: "string \<Rightarrow> comment_context \<Rightarrow> bool" where
  "isTrivialComment cleanComment ctx =
     (if nextNonEmptyLine ctx \<noteq> [] \<and>
         toLowerCase (filter is_alpha cleanComment) =
           toLowerCase (filter is_alpha (toLowerCase (nextNonEmptyLine ctx)))
      then True
      else list_ex (\<lambda>pattern. regex_test pattern cleanComment) trivialPatterns)"

definition isEmptyComment :: "string \<Rightarrow> bool" where
  "isEmptyComment cleanComment =
     (let meaningfulContent = filter is_word cleanComment
      in length meaningfulContent = 0 \<or> length meaningfulContent < 2)"

text \<open>
  \<^verbatim>\<open>text.match(regex)\<close> with the flag g, for the escaped (so literal) comment text: the
  number of occurrences found from left to right, each search starting behind the last
  occurrence. The empty pattern matches at every index.
\<close>

function count_matches :: "string \<Rightarrow> string \<Rightarrow> nat" where
  "count_matches p [] = (if p = [] then 1 else 0)"
| "count_matches p (c # cs) =
     (if p = [] then Suc (count_matches p cs)
      else if startsWith (c # cs) p then Suc (count_matches p (drop (length p) (c # cs)))
      else count_matches p cs)"
  by pat_completeness auto
termination
  by (relation "measure (\<lambda>(p, s). length s)") auto

definition isDuplicateComment :: "string \<Rightarrow> comment \<Rightarrow> document \<Rightarrow> bool" where
  "isDuplicateComment cleanComment currentComment d =
     (if length cleanComment < 5 then False
      else count_matches (trim (c_text currentComment)) (getText d) > 1)"

definition debugPatterns :: "pattern list list" where
  "debugPatterns = [
     [Prefix (OneOf [''console.log'', ''print'', ''echo'', ''debug'', ''trace''])],
     [Prefix (OneOf [''test'', ''testing'', ''temp'', ''temporary'', ''tmp''])],
     [Prefix (Cat [OneOf [''remove'', ''delete''], Str '' '', OneOf [''this'', ''me'', ''later'']])],
     [Prefix (OneOf [''work in progress'', ''wip''])],
     [Prefix (OneOf [''placeholder'', ''stub''])],
     [Prefix (OneOf [''broken'', ''doesnt work'', ''not working''])],
     [Prefix (OneOf [''quick fix'', ''quick hack'', ''dirty fix''])],
     [Prefix (OneOf [''remember to'', ''dont forget''])],
     [Prefix (OneOf [''asap'', ''urgent'', ''priority''])],
     [Prefix (Cat [OneOf [''review'', ''check''], Str '' '', OneOf [''this'', ''later'']])],
     [Prefix (Cat [OneOf [''delete'', ''remove''], Str '' before''])],
     [Prefix (OneOf [''for now'', ''temporarily''])]]"

definition isDebugComment :: "string \<Rightarrow> bool" where
  "isDebugComment cleanComment = list_ex (\<lambda>pattern. regex_test pattern cleanComment) debugPatterns"

section \<open>The classification pipeline\<close>

datatype category =
  Documentation | Critical | Commented_code | Redundant | Noise | Outdated | Trivial |
  Empty | Duplicate | Debug | Regular

record analysis =
  category :: category
  shouldRemove :: bool
  confidence :: rat
  reasons :: "string list"

text \<open>\<^verbatim>\<open>analyzeComment\<close>: each branch fills the result and returns.\<close>

definition analyzeComment :: "comment \<Rightarrow> document \<Rightarrow> analysis" where
  "analyzeComment c d =
     (let cleanComment = cleanCommentText (c_text c);
          languageConfig = getLanguageConfig (languageId d)
      in if c_type c = docblock \<or> isDocBlock c then
           \<lparr>category = Documentation, shouldRemove = False, confidence = 9 / 10,
            reasons = [''API documentation block'']\<rparr>
         else if isCriticalComment cleanComment then
           \<lparr>category = Critical, shouldRemove = False, confidence = 95 / 100,
            reasons = [''Contains critical directives or important metadata'']\<rparr>
         else if isDocumentation cleanComment (c_context c) then
           \<lparr>category = Documentation, shouldRemove = False, confidence = 85 / 100,
            reasons = [''Appears to be meaningful documentation'']\<rparr>
         else if isCommentedCode cleanComment languageConfig then
           \<lparr>category = Commented_code, shouldRemove = True, confidence = 9 / 10,
            reasons = [''Appears to be commented-out code'']\<rparr>
         else if calculateRedundancyScore cleanComment (c_context c) > 1 / 2 then
           \<lparr>category = Redundant, shouldRemove = True,
            confidence = calculateRedundancyScore cleanComment (c_context c),
            reasons = [''Comment is redundant with the code it describes'']\<rparr>
         else if isNoiseComment cleanComment then
           \<lparr>category = Noise, shouldRemove = True, confidence = 8 / 10,
            reasons = [''Comment appears to be noise or placeholder'']\<rparr>
         else if isOutdatedComment cleanComment (c_context c) then
           \<lparr>category = Outdated, shouldRemove = True, confidence = 7 / 10,
            reasons = [''Comment appears to be outdated or incorrect'']\<rparr>
         else if isTrivialComment cleanComment (c_context c) then
           \<lparr>category = Trivial, shouldRemove = True, confidence = 75 / 100,
            reasons = [''Comment states the obvious'']\<rparr>
         else if isEmptyComment cleanComment then
           \<lparr>category = Empty, shouldRemove = True, confidence = 95 / 100,
            reasons = [''Comment is empty or contains only whitespace'']\<rparr>
         else if isDuplicateComment cleanComment c d then
           \<lparr>category = Duplicate, shouldRemove = True, confidence = 8 / 10,
            reasons = [''Comment is duplicated elsewhere'']\<rparr>
         else if isDebugComment cleanComment then
           \<lparr>category = Debug, shouldRemove = True, confidence = 85 / 100,
            reasons = [''Comment appears to be debug or temporary'']\<rparr>
         else
           \<lparr>category = Regular, shouldRemove = False, confidence = 3 / 10,
            reasons = [''Regular comment - preserving for safety'']\<rparr>)"

section \<open>The removal engine\<close>

text \<open>An entry of the selection handed to \<^verbatim>\<open>removeComments\<close>: a comment and its
  classification.\<close>

record item =
  item_comment :: comment
  item_analysis :: analysis

text \<open>\<^verbatim>\<open>Position.compareTo\<close> of the host: by line, then by column.\<close>

definition compareTo :: "position \<Rightarrow> position \<Rightarrow> int" where
  "compareTo p q =
     (if line p < line q then - 1
      else if line p > line q then 1
      else if character p < character q then - 1
      else if character p > character q then 1
      else 0)"

text \<open>
  \<^verbatim>\<open>sort((a, b) => b.comment.range.start.compareTo(a.comment.range.start))\<close>: the
  sort is stable, here by insertion; an entry goes in front of the first entry that the
  comparator does not put before it.
\<close>

definition sort_compare :: "item \<Rightarrow> item \<Rightarrow> int" where
  "sort_compare a b =
     compareTo (range_start (c_range (item_comment b))) (range_start (c_range (item_comment a)))"

fun insert_item :: "item \<Rightarrow> item list \<Rightarrow> item list" where
  "insert_item x [] = [x]"
| "insert_item x (y # ys) = (if sort_compare x y \<le> 0 then x # y # ys else y # insert_item x ys)"

definition sort_descending :: "item list \<Rightarrow> item list" where
  "sort_descending xs = foldr insert_item xs []"

text \<open>
  The body of the loop over the sorted selection: the range given to
  \<^verbatim>\<open>editBuilder.delete\<close>. \<open>None\<close> is the exception of \<^verbatim>\<open>lineAt\<close> on a line the
  document does not have.
\<close>

definition deletion_range :: "string \<Rightarrow> comment \<Rightarrow> vs_range option" where
  "deletion_range t c =
     (case lineAt t (line (range_start (c_range c))) of
        None \<Rightarrow> None
      | Some l \<Rightarrow>
          (let beforeComment = take (character (range_start (c_range c))) l
           in if trim beforeComment = []
              then Some \<lparr>range_start = \<lparr>line = line (range_start (c_range c)), character = 0\<rparr>,
                         range_end = \<lparr>line = line (range_start (c_range c)) + 1, character = 0\<rparr>\<rparr>
              else Some (c_range c)))"

text \<open>The deletions of \<^verbatim>\<open>removeComments\<close>, in the order in which it issues them.\<close>

definition removal_plan :: "string \<Rightarrow> item list \<Rightarrow> vs_range list option" where
  "removal_plan t commentsToRemove =
     those (map (\<lambda>x. deletion_range t (item_comment x)) (sort_descending commentsToRemove))"

subsection \<open>Applying deletions to a buffer\<close>

text \<open>
  The host turns a position back into an offset with the convention of \<open>positionAt\<close>: a
  column past the end of its line counts as the end of the line, a line past the last
  one as the end of the text.
\<close>

fun offset_at :: "string \<Rightarrow> nat \<Rightarrow> nat \<Rightarrow> nat" where
  "offset_at [] l k = 0"
| "offset_at (c # cs) 0 0 = 0"
| "offset_at (c # cs) 0 (Suc k) = (if c = LF then 0 else Suc (offset_at cs 0 k))"
| "offset_at (c # cs) (Suc l) k = Suc (offset_at cs (if c = LF then l else Suc l) k)"

definition offsetAt :: "string \<Rightarrow> position \<Rightarrow> nat" where
  "offsetAt t p = offset_at t (line p) (character p)"

text \<open>The offsets that a range covers in a text, start first.\<close>

definition range_offsets :: "string \<Rightarrow> vs_range \<Rightarrow> nat \<times> nat" where
  "range_offsets t r =
     (min (offsetAt t (range_start r)) (offsetAt t (range_end r)),
      max (offsetAt t (range_start r)) (offsetAt t (range_end r)))"

definition delete_offsets :: "string \<Rightarrow> nat \<times> nat \<Rightarrow> string" where
  "delete_offsets t ab = take (fst ab) t @ drop (snd ab) t"

text \<open>One deletion applied to the buffer as it stands.\<close>

definition delete_range :: "string \<Rightarrow> vs_range \<Rightarrow> string" where
  "delete_range t r = delete_offsets t (range_offsets t r)"

text \<open>
  The specification's first algorithm: the deletions of the plan applied one by one, in
  the plan's order, each to the buffer that the deletions before it have left.
\<close>

definition apply_sequentially :: "string \<Rightarrow> vs_range list \<Rightarrow> string" where
  "apply_sequentially t rs = foldl delete_range t rs"

text \<open>
  The specification's reference algorithm: the original text is not changed; every
  character whose offset lies in one of the ranges, read in the original, is dropped and
  the others are put together again.
\<close>

fun keep_outside :: "nat \<Rightarrow> (nat \<times> nat) list \<Rightarrow> string \<Rightarrow> string" where
  "keep_outside i ps [] = []"
| "keep_outside i ps (c # cs) =
     (if list_ex (\<lambda>ab. fst ab \<le> i \<and> i < snd ab) ps then keep_outside (Suc i) ps cs
      else c # keep_outside (Suc i) ps cs)"

definition reference_removal :: "string \<Rightarrow> vs_range list \<Rightarrow> string" where
  "reference_removal t rs = keep_outside 0 (map (range_offsets t) rs) t"

text \<open>
  A position that the text has: a line of the text, and a column up to its length.
\<close>

fun valid_at :: "string \<Rightarrow> nat \<Rightarrow> nat \<Rightarrow> bool" where
  "valid_at [] l k = (l = 0 \<and> k = 0)"
| "valid_at (c # cs) 0 0 = True"
| "valid_at (c # cs) 0 (Suc k) = (c \<noteq> LF \<and> valid_at cs 0 k)"
| "valid_at (c # cs) (Suc l) k = valid_at cs (if c = LF then l else Suc l) k"

definition valid_position :: "string \<Rightarrow> position \<Rightarrow> bool" where
  "valid_position t p = valid_at t (line p) (character p)"

definition position_le :: "position \<Rightarrow> position \<Rightarrow> bool" where
  "position_le p q = (line p < line q \<or> (line p = line q \<and> character p \<le> character q))"

text \<open>
  A range of a plan is well formed in a text when it starts at a position of the text,
  does not end before it starts, and ends at a position of the text or at the first
  column of the line after the last one (the end of a whole-line range on the last line).
\<close>

definition well_formed_range :: "string \<Rightarrow> vs_range \<Rightarrow> bool" where
  "well_formed_range t r =
     (valid_position t (range_start r) \<and> position_le (range_start r) (range_end r) \<and>
      (valid_position t (range_end r) \<or>
       (line (range_end r) = lineCount t \<and> character (range_end r) = 0)))"

section \<open>The rules as the specification words them\<close>

text \<open>
  The specification's priority table: the eleven rules in their order, each with the
  value of its predicate on the comment and the result it gives, and the default result.
\<close>

definition priority_rules :: "comment \<Rightarrow> document \<Rightarrow> (bool \<times> analysis) list" where
  "priority_rules c d =
     (let n = cleanCommentText (c_text c); ctx = c_context c in
      [(c_type c = docblock \<or> isDocBlock c,
          \<lparr>category = Documentation, shouldRemove = False, confidence = 9 / 10,
           reasons = [''API documentation block'']\<rparr>),
       (isCriticalComment n,
          \<lparr>category = Critical, shouldRemove = False, confidence = 95 / 100,
           reasons = [''Contains critical directives or important metadata'']\<rparr>),
       (isDocumentation n ctx,
          \<lparr>category = Documentation, shouldRemove = False, confidence = 85 / 100,
           reasons = [''Appears to be meaningful documentation'']\<rparr>),
       (isCommentedCode n (getLanguageConfig (languageId d)),
          \<lparr>category = Commented_code, shouldRemove = True, confidence = 9 / 10,
           reasons = [''Appears to be commented-out code'']\<rparr>),
       (calculateRedundancyScore n ctx > 1 / 2,
          \<lparr>category = Redundant, shouldRemove = True,
           confidence = calculateRedundancyScore n ctx,
           reasons = [''Comment is redundant with the code it describes'']\<rparr>),
       (isNoiseComment n,
          \<lparr>category = Noise, shouldRemove = True, confidence = 8 / 10,
           reasons = [''Comment appears to be noise or placeholder'']\<rparr>),
       (isOutdatedComment n ctx,
          \<lparr>category = Outdated, shouldRemove = True, confidence = 7 / 10,
           reasons = [''Comment appears to be outdated or incorrect'']\<rparr>),
       (isTrivialComment n ctx,
          \<lparr>category = Trivial, shouldRemove = True, confidence = 75 / 100,
           reasons = [''Comment states the obvious'']\<rparr>),
       (isEmptyComment n,
          \<lparr>category = Empty, shouldRemove = True, confidence = 95 / 100,
           reasons = [''Comment is empty or contains only whitespace'']\<rparr>),
       (isDuplicateComment n c d,
          \<lparr>category = Duplicate, shouldRemove = True, confidence = 8 / 10,
           reasons = [''Comment is duplicated elsewhere'']\<rparr>),
       (isDebugComment n,
          \<lparr>category = Debug, shouldRemove = True, confidence = 85 / 100,
           reasons = [''Comment appears to be debug or temporary'']\<rparr>)])"

definition regular_result :: analysis where
  "regular_result = \<lparr>category = Regular, shouldRemove = False, confidence = 3 / 10,
     reasons = [''Regular comment - preserving for safety'']\<rparr>"

text \<open>
  The specification's reading of the commented-code rule, where a keyword counts when it
  occurs as a whole word: no word character stands directly before or directly behind
  the occurrence.
\<close>

fun occurs_as_word :: "bool \<Rightarrow> string \<Rightarrow> string \<Rightarrow> bool" where
  "occurs_as_word after_word [] kw = False"
| "occurs_as_word after_word (c # cs) kw =
     ((\<not> after_word \<and> startsWith (c # cs) kw \<and>
       (case drop (length kw) (c # cs) of [] \<Rightarrow> True | x # xs \<Rightarrow> \<not> is_word x)) \<or>
      occurs_as_word (is_word c) cs kw)"

definition whole_word_count :: "string \<Rightarrow> string list \<Rightarrow> nat" where
  "whole_word_count cleanComment kws =
     length (filter (occurs_as_word False cleanComment) kws)"

definition spec_commented_code :: "string \<Rightarrow> language_config \<Rightarrow> bool" where
  "spec_commented_code cleanComment cfg =
     (length cleanComment \<ge> 3 \<and>
      (symbolCount cleanComment \<ge> 3 \<or>
       whole_word_count cleanComment (lang_keywords cfg) \<ge> 2 \<or>
       regex_test variableAssignmentRegex cleanComment \<or>
       regex_test functionCallRegex cleanComment \<or>
       regex_test codeFlowRegex cleanComment))"

section \<open>From analysis to removal\<close>

text \<open>The loop of \<^verbatim>\<open>cleanComments\<close> that classifies every extracted comment.\<close>

definition analyze_all :: "document \<Rightarrow> item list option" where
  "analyze_all d =
     (case extractComments d of
        None \<Rightarrow> None
      | Some comments \<Rightarrow>
          Some (map (\<lambda>c. \<lparr>item_comment = c, item_analysis = analyzeComment c d\<rparr>) comments))"

text \<open>The filter of \<^verbatim>\<open>cleanComments\<close>, for a confidence threshold.\<close>

definition removableComments :: "rat \<Rightarrow> item list \<Rightarrow> item list" where
  "removableComments threshold analyses =
     filter (\<lambda>x. shouldRemove (item_analysis x) \<and> confidence (item_analysis x) \<ge> threshold)
       analyses"

text \<open>
  The deletions that the main command issues once the user confirms the preview: the
  plan for the removable comments at the default threshold 0.6.
\<close>

definition cleanComments_plan :: "document \<Rightarrow> vs_range list option" where
  "cleanComments_plan d =
     (case analyze_all d of
        None \<Rightarrow> None
      | Some analyses \<Rightarrow> removal_plan (getText d) (removableComments (6 / 10) analyses))"

text \<open>
  The selection of the main command: the removable comments of a document at the default
  threshold. The plan of \<open>cleanComments_plan\<close> is the plan of this selection.
\<close>

definition cleanComments_selection :: "document \<Rightarrow> item list" where
  "cleanComments_selection d =
     (case analyze_all d of None \<Rightarrow> [] | Some analyses \<Rightarrow> removableComments (6 / 10) analyses)"

section \<open>Selections whose deletions leave each other in place\<close>

text \<open>
  The conditions under which the deletions of a selection, applied one by one, remove
  what the reference algorithm removes. They are stated on the selection as it is handed
  to \<^verbatim>\<open>removeComments\<close>, before the sort, and speak of positions in the original text
  only.

  A position lies inside its line when the text has a character of that line at it: the
  line is a line of the text and the column is smaller than its length. Every other
  position is read by the host as the end of a line or of the text. A position ends the
  text when its offset is the length of the text.
\<close>

definition position_lt :: "position \<Rightarrow> position \<Rightarrow> bool" where
  "position_lt p q = (line p < line q \<or> (line p = line q \<and> character p < character q))"

definition inside_line :: "string \<Rightarrow> position \<Rightarrow> bool" where
  "inside_line t p = (line p < lineCount t \<and> character p < length (lines_of t ! line p))"

definition ends_text :: "string \<Rightarrow> position \<Rightarrow> bool" where
  "ends_text t p = (offsetAt t p = length t)"

definition comment_start :: "item \<Rightarrow> position" where
  "comment_start x = range_start (c_range (item_comment x))"

text \<open>
  A comment lies in the text when it starts at a character of the text and ends behind
  its start.
\<close>

definition comment_in_text :: "string \<Rightarrow> comment \<Rightarrow> bool" where
  "comment_in_text t c =
     (inside_line t (range_start (c_range c)) \<and>
      position_lt (range_start (c_range c)) (range_end (c_range c)))"

definition one_line :: "vs_range \<Rightarrow> bool" where
  "one_line r = (line (range_start r) = line (range_end r))"

text \<open>
  A deletion \<open>r'\<close> can follow a deletion \<open>r\<close> when \<open>r'\<close> ends at or before the start of
  \<open>r\<close>: the two do not overlap and \<open>r'\<close> lies in front. It can also follow when it
  starts before \<open>r\<close> and reaches into \<open>r\<close> or beyond it, in four cases, in each of
  which the end of \<open>r'\<close> is read, in the text that \<open>r\<close> leaves, at the place it had:
  \<^item> \<open>r'\<close> ends the text;
  \<^item> \<open>r\<close> ends the text;
  \<^item> \<open>r\<close> runs to the end of a line and \<open>r'\<close> ends on the line on which \<open>r\<close> starts;
  \<^item> \<open>r\<close> lies within one line, so that it takes no line terminator away, and \<open>r'\<close>
    ends on a later line or at the end of a line.
\<close>

definition safe_pair :: "string \<Rightarrow> vs_range \<Rightarrow> vs_range \<Rightarrow> bool" where
  "safe_pair t r r' =
     (position_le (range_end r') (range_start r) \<or>
      (position_lt (range_start r') (range_start r) \<and>
       (ends_text t (range_end r') \<or>
        ends_text t (range_end r) \<or>
        (\<not> inside_line t (range_end r) \<and> line (range_end r') = line (range_start r)) \<or>
        (one_line r \<and>
         (line (range_start r) < line (range_end r') \<or> \<not> inside_line t (range_end r'))))))"

text \<open>Two deletions are compatible when one of them can follow the other.\<close>

definition compatible :: "string \<Rightarrow> vs_range \<Rightarrow> vs_range \<Rightarrow> bool" where
  "compatible t r r' = (safe_pair t r r' \<or> safe_pair t r' r)"

text \<open>
  A selection is safe for a text when its comments start at pairwise different
  positions, each comment lies in the text, and the deletions of any two of them are
  compatible. Nothing is asked of the order of the selection.
\<close>

definition safe_selection :: "string \<Rightarrow> item list \<Rightarrow> bool" where
  "safe_selection t xs =
     (distinct (map comment_start xs) \<and>
      list_all (\<lambda>x. comment_in_text t (item_comment x)) xs \<and>
      list_all (\<lambda>x. list_all (\<lambda>y. comment_start x = comment_start y \<or>
          (case deletion_range t (item_comment x) of
             None \<Rightarrow> False
           | Some r \<Rightarrow>
               (case deletion_range t (item_comment y) of
                  None \<Rightarrow> False
                | Some r' \<Rightarrow> compatible t r r'))) xs) xs)"

section \<open>Documents of the scenarios\<close>

definition doc_param :: document where
  "doc_param = \<lparr>languageId = ''javascript'',
     getText = ''/** @param x the input */\<newline>function f(x) {}''\<rparr>"

definition comment_param :: comment where
  "comment_param = \<lparr>
     c_type = multi,
     c_text = ''/** @param x the input */'',
     c_range = \<lparr>range_start = \<lparr>line = 0, character = 0\<rparr>,
                range_end = \<lparr>line = 0, character = 25\<rparr>\<rparr>,
     lineNumber = 0,
     c_context = \<lparr>previousLine = [], currentLine = ''/** @param x the input */'',
                  nextLine = ''function f(x) {}'', nextNonEmptyLine = ''function f(x) {}'',
                  indentLevel = 0\<rparr>,
     isInlineComment = False,
     isDocBlock = False\<rparr>"

definition doc_old :: document where
  "doc_old = \<lparr>languageId = ''python'', getText = ''# old version\<newline>x = get_value()\<newline>''\<rparr>"

definition comment_old :: comment where
  "comment_old = \<lparr>
     c_type = single,
     c_text = ''# old version'',
     c_range = \<lparr>range_start = \<lparr>line = 0, character = 0\<rparr>,
                range_end = \<lparr>line = 0, character = 13\<rparr>\<rparr>,
     lineNumber = 0,
     c_context = \<lparr>previousLine = [], currentLine = ''# old version'',
                  nextLine = ''x = get_value()'', nextNonEmptyLine = ''x = get_value()'',
                  indentLevel = 0\<rparr>,
     isInlineComment = False,
     isDocBlock = False\<rparr>"

definition doc_motif :: document where
  "doc_motif = \<lparr>languageId = ''javascript'', getText = ''// great motif letters''\<rparr>"

definition comment_motif :: comment where
  "comment_motif = \<lparr>
     c_type = single,
     c_text = ''// great motif letters'',
     c_range = \<lparr>range_start = \<lparr>line = 0, character = 0\<rparr>,
                range_end = \<lparr>line = 0, character = 22\<rparr>\<rparr>,
     lineNumber = 0,
     c_context = \<lparr>previousLine = [], currentLine = ''// great motif letters'',
                  nextLine = [], nextNonEmptyLine = [], indentLevel = 0\<rparr>,
     isInlineComment = False,
     isDocBlock = False\<rparr>"

definition doc_assign :: document where
  "doc_assign = \<lparr>languageId = ''javascript'', getText = ''// x = x + 1\<newline>x = x + 1;\<newline>''\<rparr>"

definition comment_assign :: comment where
  "comment_assign = \<lparr>
     c_type = single,
     c_text = ''// x = x + 1'',
     c_range = \<lparr>range_start = \<lparr>line = 0, character = 0\<rparr>,
                range_end = \<lparr>line = 0, character = 12\<rparr>\<rparr>,
     lineNumber = 0,
     c_context = \<lparr>previousLine = [], currentLine = ''// x = x + 1'',
                  nextLine = ''x = x + 1;'', nextNonEmptyLine = ''x = x + 1;'',
                  indentLevel = 0\<rparr>,
     isInlineComment = False,
     isDocBlock = False\<rparr>"

definition doc_indented :: document where
  "doc_indented = \<lparr>languageId = ''javascript'', getText = ''   // noise\<newline>next();''\<rparr>"


definition doc_block_after_code :: document where
  "doc_block_after_code = \<lparr>languageId = ''javascript'', getText = ''x = 1; /* c */''\<rparr>"

definition doc_overlap :: document where
  "doc_overlap = \<lparr>languageId = ''javascript'', getText = ''x /* a\<newline>// b\<newline>c */ y''\<rparr>"

definition plan_overlap :: "vs_range list" where
  "plan_overlap =
     [\<lparr>range_start = \<lparr>line = 1, character = 0\<rparr>, range_end = \<lparr>line = 2, character = 0\<rparr>\<rparr>,
      \<lparr>range_start = \<lparr>line = 0, character = 2\<rparr>, range_end = \<lparr>line = 2, character = 4\<rparr>\<rparr>]"

definition doc_two :: document where
  "doc_two = \<lparr>languageId = ''javascript'', getText = ''   // noise\<newline>x = 1; // noise''\<rparr>"

definition plan_two :: "vs_range list" where
  "plan_two =
     [\<lparr>range_start = \<lparr>line = 1, character = 7\<rparr>, range_end = \<lparr>line = 1, character = 15\<rparr>\<rparr>,
      \<lparr>range_start = \<lparr>line = 0, character = 0\<rparr>, range_end = \<lparr>line = 1, character = 0\<rparr>\<rparr>]"

definition doc_same_line :: document where
  "doc_same_line = \<lparr>languageId = ''javascript'', getText = ''/* a */ x; // b''\<rparr>"

definition plan_same_line :: "vs_range list" where
  "plan_same_line =
     [\<lparr>range_start = \<lparr>line = 0, character = 11\<rparr>, range_end = \<lparr>line = 0, character = 15\<rparr>\<rparr>,
      \<lparr>range_start = \<lparr>line = 0, character = 0\<rparr>, range_end = \<lparr>line = 1, character = 0\<rparr>\<rparr>]"

definition doc_inside_block :: document where
  "doc_inside_block = \<lparr>languageId = ''javascript'', getText = ''y; /* ab //cd */\<newline>z''\<rparr>"

definition plan_inside_block :: "vs_range list" where
  "plan_inside_block =
     [\<lparr>range_start = \<lparr>line = 0, character = 9\<rparr>, range_end = \<lparr>line = 0, character = 16\<rparr>\<rparr>,
      \<lparr>range_start = \<lparr>line = 0, character = 3\<rparr>, range_end = \<lparr>line = 0, character = 16\<rparr>\<rparr>]"

definition doc_block_to_end :: document where
  "doc_block_to_end = \<lparr>languageId = ''javascript'', getText = ''x /* a\<newline>// b\<newline>c */''\<rparr>"

definition doc_line_to_end :: document where
  "doc_line_to_end = \<lparr>languageId = ''javascript'', getText = ''x /* a\<newline>// b */''\<rparr>"

definition plan_line_to_end :: "vs_range list" where
  "plan_line_to_end =
     [\<lparr>range_start = \<lparr>line = 1, character = 0\<rparr>, range_end = \<lparr>line = 2, character = 0\<rparr>\<rparr>,
      \<lparr>range_start = \<lparr>line = 0, character = 2\<rparr>, range_end = \<lparr>line = 1, character = 7\<rparr>\<rparr>]"

definition doc_block_in_line :: document where
  "doc_block_in_line =
     \<lparr>languageId = ''javascript'', getText = ''x // a /* b\<newline> c */\<newline>q''\<rparr>"

definition doc_block_in_line_code :: document where
  "doc_block_in_line_code =
     \<lparr>languageId = ''javascript'', getText = ''x // a /* b\<newline> c */ d''\<rparr>"

definition plan_block_in_line :: "vs_range list" where
  "plan_block_in_line =
     [\<lparr>range_start = \<lparr>line = 0, character = 7\<rparr>, range_end = \<lparr>line = 1, character = 5\<rparr>\<rparr>,
      \<lparr>range_start = \<lparr>line = 0, character = 2\<rparr>, range_end = \<lparr>line = 0, character = 11\<rparr>\<rparr>]"

definition doc_block_behind :: document where
  "doc_block_behind =
     \<lparr>languageId = ''javascript'', getText = ''/* a */ /* b\<newline>c */\<newline>end''\<rparr>"

definition plan_block_behind :: "vs_range list" where
  "plan_block_behind =
     [\<lparr>range_start = \<lparr>line = 0, character = 8\<rparr>, range_end = \<lparr>line = 1, character = 4\<rparr>\<rparr>,
      \<lparr>range_start = \<lparr>line = 0, character = 0\<rparr>, range_end = \<lparr>line = 1, character = 0\<rparr>\<rparr>]"

section \<open>Notions used in the proofs\<close>

text \<open>What the classifier's first branch asks of a comment, negated.\<close>

definition plain_comment :: "comment \<Rightarrow> bool" where
  "plain_comment c = ((c_type c = single \<or> c_type c = multi) \<and> \<not> isDocBlock c)"

text \<open>The offset at which line \<open>l\<close> of a list of lines starts.\<close>

definition line_start :: "string list \<Rightarrow> nat \<Rightarrow> nat" where
  "line_start ls l = sum_list (map (\<lambda>x. Suc (length x)) (take l ls))"

text \<open>
  A range of a plan as the proof needs it: it starts at a character of the text and ends
  behind its start.
\<close>

definition range_in_text :: "string \<Rightarrow> vs_range \<Rightarrow> bool" where
  "range_in_text t r =
     (inside_line t (range_start r) \<and> position_lt (range_start r) (range_end r))"

text \<open>A plan in which every deletion can follow all the deletions issued before it.\<close>

definition safe_plan :: "string \<Rightarrow> vs_range list \<Rightarrow> bool" where
  "safe_plan t rs = (list_all (range_in_text t) rs \<and> sorted_wrt (safe_pair t) rs)"

text \<open>Where an offset \<open>k\<close> of a text lies after the offsets from \<open>a\<close> to \<open>b\<close> are cut out.\<close>

definition moved_end :: "nat \<Rightarrow> nat \<Rightarrow> nat \<Rightarrow> nat" where
  "moved_end a b k = (if k \<le> a then k else if k \<le> b then a else k - (b - a))"

text \<open>
  The language of a regular expression, to state what the matcher decides: \<open>star A\<close>
  holds the concatenations of finitely many strings of \<open>A\<close>.
\<close>

inductive_set star :: "string set \<Rightarrow> string set" for A :: "string set" where
  star_empty: "[] \<in> star A"
| star_more: "u \<in> A \<Longrightarrow> v \<in> star A \<Longrightarrow> u @ v \<in> star A"

fun lang :: "rx \<Rightarrow> string set" where
  "lang Nul = {}"
| "lang Eps = {[]}"
| "lang (Sym k) = {[c] | c. class_has k c}"
| "lang (Seq a b) = {u @ v | u v. u \<in> lang a \<and> v \<in> lang b}"
| "lang (Alt a b) = lang a \<union> lang b"
| "lang (Star a) = star (lang a)"

text \<open>A context of which only the next non-blank line matters.\<close>

definition ctx_next :: "string \<Rightarrow> comment_context" where
  "ctx_next l = \<lparr>previousLine = [], currentLine = [], nextLine = l, nextNonEmptyLine = l,
     indentLevel = 0\<rparr>"

section \<open>Extraction: totality and the unsupported language\<close>

lemma lines_of_not_Nil: "lines_of t \<noteq> []"
  by (induction t) (auto split: list.splits)

lemma lineCount_Cons:
  "lineCount (c # cs) = (if c = LF then Suc (lineCount cs) else lineCount cs)"
  using lines_of_not_Nil [of cs] by (auto simp: lineCount_def split: list.splits)

lemma lineCount_pos: "0 < lineCount t"
  using lines_of_not_Nil [of t] by (simp add: lineCount_def)

text \<open>The line of a position computed from an offset is a line of the document.\<close>

lemma positionAt_line_lt: "line (positionAt t k) < lineCount t"
proof (induction t arbitrary: k)
  case Nil
  show ?case by (simp add: lineCount_def)
next
  case (Cons c cs)
  show ?case
  proof (cases k)
    case 0
    then show ?thesis by (simp add: lineCount_pos)
  next
    case (Suc j)
    with Cons [of j] show ?thesis
      by (auto simp: lineCount_Cons Let_def)
  qed
qed

lemma getContext_total:
  assumes "n < lineCount t"
  shows "\<exists>ctx. getContext t n = Some ctx"
  using assms by (auto simp: getContext_def lineAt_def)

lemma those_map_all:
  assumes "\<And>x. x \<in> set xs \<Longrightarrow> \<exists>y. f x = Some y \<and> P y"
  shows "\<exists>ys. those (map f xs) = Some ys \<and> list_all P ys"
  using assms
proof (induction xs)
  case Nil
  show ?case by simp
next
  case (Cons x xs)
  from Cons.prems [of x] obtain y where y: "f x = Some y" "P y" by auto
  from Cons.IH Cons.prems obtain ys where ys: "those (map f xs) = Some ys" "list_all P ys"
    by auto
  from y ys show ?case by simp
qed

lemma single_comment_total: "\<exists>c. single_comment t im = Some c \<and> plain_comment c"
  using getContext_total [OF positionAt_line_lt, of t "fst im"]
  by (auto simp: single_comment_def plain_comment_def Let_def)

lemma multi_comment_total: "\<exists>c. multi_comment t im = Some c \<and> plain_comment c"
  using getContext_total [OF positionAt_line_lt, of t "fst im"]
  by (auto simp: multi_comment_def plain_comment_def Let_def)

text \<open>Extraction never throws, and builds single-line and multi-line comments only.\<close>

lemma extractComments_total:
  "\<exists>cs. extractComments d = Some cs \<and> list_all plain_comment cs"
proof -
  have s: "\<exists>ys. those (map (single_comment t) xs) = Some ys \<and> list_all plain_comment ys" for t xs
    by (rule those_map_all) (rule single_comment_total)
  have m: "\<exists>ys. those (map (multi_comment t) xs) = Some ys \<and> list_all plain_comment ys" for t xs
    by (rule those_map_all) (rule multi_comment_total)
  show ?thesis
  proof (cases "getLanguageConfig (languageId d)")
    case None
    then show ?thesis by (simp add: extractComments_def)
  next
    case (Some cfg)
    obtain ss where ss: "(case singleLine cfg of None \<Rightarrow> Some []
        | Some rx \<Rightarrow> those (map (single_comment (getText d)) (exec_line rx (getText d)))) = Some ss"
        "list_all plain_comment ss"
      using s [of "getText d"] by (cases "singleLine cfg") auto
    obtain ms where ms: "(case multiLine cfg of None \<Rightarrow> Some []
        | Some rx \<Rightarrow> those (map (multi_comment (getText d)) (exec_block rx (getText d)))) = Some ms"
        "list_all plain_comment ms"
      using m [of "getText d"] by (cases "multiLine cfg") auto
    from Some ss ms show ?thesis
      by (simp add: extractComments_def)
  qed
qed

text \<open>
  Claim C9. For a document whose language id is not one of the registered profile ids,
  extraction returns the empty sequence and raises nothing: the result is the value
  \<open>Some []\<close>, the same as for a supported document without comments. This covers the ids
  that the lookup finds among the inherited members of the table object, which are not
  profiles.
\<close>

theorem unsupported_language_extracts_nothing:
  "languageId d \<notin> set registered_languages \<Longrightarrow> extractComments d = Some []"
  by (auto simp: extractComments_def getLanguageConfig_def registered_languages_def
      inherited_member_config_def)

theorem unsupported_language_extracts_nothing_witness:
  "extractComments \<lparr>languageId = ''rust'', getText = ''// a comment''\<rparr> = Some []
   \<and> extractComments \<lparr>languageId = ''constructor'', getText = ''// a comment''\<rparr> = Some []"
  using unsupported_language_extracts_nothing [of "\<lparr>languageId = ''rust'', getText = ''// a comment''\<rparr>"]
    unsupported_language_extracts_nothing [of "\<lparr>languageId = ''constructor'', getText = ''// a comment''\<rparr>"]
  by (simp add: registered_languages_def)

section \<open>No doc-block comment leaves extraction\<close>

lemma plain_comment_not_docblock_branch:
  "plain_comment c \<Longrightarrow> reasons (analyzeComment c d) \<noteq> [''API documentation block'']"
  by (auto simp: plain_comment_def analyzeComment_def Let_def)

text \<open>
  Claim C10. For every document, extraction returns (it does not throw) and every comment
  it returns is of type single or multi: none has the type docblock and none has the
  \<^verbatim>\<open>isDocBlock\<close> flag, since \<^verbatim>\<open>extractComments\<close> reads only the single-line and the
  multi-line pattern of the profile. So the condition of the classifier's first branch is
  false for every extracted comment, and the result of that branch (the one with the
  reason \<^verbatim>\<open>API documentation block\<close>) is never the classification of an extracted
  comment, whatever document the classifier is given.
\<close>

theorem extraction_never_yields_docblock:
  "\<exists>cs. extractComments d = Some cs \<and>
     (\<forall>c \<in> set cs. (c_type c = single \<or> c_type c = multi) \<and>
        \<not> (c_type c = docblock \<or> isDocBlock c) \<and>
        reasons (analyzeComment c d') \<noteq> [''API documentation block''])"
proof -
  obtain cs where cs: "extractComments d = Some cs" "list_all plain_comment cs"
    using extractComments_total by blast
  have "(c_type c = single \<or> c_type c = multi) \<and> \<not> (c_type c = docblock \<or> isDocBlock c) \<and>
        reasons (analyzeComment c d') \<noteq> [''API documentation block'']"
    if "c \<in> set cs" for c
  proof -
    from that cs(2) have p: "plain_comment c" by (simp add: list_all_iff)
    then show ?thesis
      using plain_comment_not_docblock_branch [OF p, of d'] by (auto simp: plain_comment_def)
  qed
  with cs(1) show ?thesis by blast
qed

theorem extraction_never_yields_docblock_witness:
  "extractComments doc_param = Some [comment_param] \<and> c_type comment_param = multi \<and>
   \<not> isDocBlock comment_param \<and>
   reasons (analyzeComment comment_param doc_param) \<noteq> [''API documentation block'']"
proof -
  have e: "extractComments doc_param = Some [comment_param]"
    by code_simp
  have m: "c_type comment_param = multi"
    by (simp add: comment_param_def)
  from extraction_never_yields_docblock [of doc_param doc_param] e m show ?thesis
    by auto
qed

section \<open>The scenarios of the specification\<close>

text \<open>
  Claim C2, evaluated on the code. For the document
  \<^verbatim>\<open>/** @param x the input */\<close> followed by \<^verbatim>\<open>function f(x) {}\<close> in JavaScript,
  extraction yields one comment of type multi (not docblock), its normalized text is
  \<^verbatim>\<open>@param x the input\<close>, and the classifier passes the doc-block branch and returns
  the critical rule's result: category critical, confidence 0.95, shouldRemove false.
\<close>

theorem doc_block_scenario_classified_critical:
  "extractComments doc_param = Some [comment_param] \<and>
   c_type comment_param = multi \<and>
   cleanCommentText (c_text comment_param) = ''@param x the input'' \<and>
   analyzeComment comment_param doc_param =
     \<lparr>category = Critical, shouldRemove = False, confidence = 95 / 100,
      reasons = [''Contains critical directives or important metadata'']\<rparr>"
  by code_simp

text \<open>
  The scenario of claim C3 as the specification states it fails: for the Python document
  \<^verbatim>\<open># old version\<close>, \<^verbatim>\<open>x = get_value()\<close>, the one extracted comment is not
  classified as outdated and its confidence is not 0.7.
\<close>

theorem old_version_not_outdated:
  "extractComments doc_old = Some [comment_old] \<and>
   category (analyzeComment comment_old doc_old) \<noteq> Outdated \<and>
   confidence (analyzeComment comment_old doc_old) \<noteq> 7 / 10"
  by code_simp

text \<open>
  Claim C3, amended. For language python and the document \<^verbatim>\<open># old version\<close>,
  \<^verbatim>\<open>x = get_value()\<close>, extraction yields exactly one single-line comment with raw text
  \<^verbatim>\<open># old version\<close>; its normalized text \<^verbatim>\<open>old version\<close> does contain an outdated
  indicator, but it is also a comment of at most three words, which the noise rule
  matches, and the noise rule comes first: the classification is noise with confidence
  0.8 and shouldRemove true.
\<close>

theorem old_version_classified_noise:
  "extractComments doc_old = Some [comment_old] \<and>
   c_type comment_old = single \<and> c_text comment_old = ''# old version'' \<and>
   cleanCommentText (c_text comment_old) = ''old version'' \<and>
   isNoiseComment ''old version'' \<and>
   isOutdatedComment ''old version'' (c_context comment_old) \<and>
   analyzeComment comment_old doc_old =
     \<lparr>category = Noise, shouldRemove = True, confidence = 8 / 10,
      reasons = [''Comment appears to be noise or placeholder'']\<rparr>"
  by code_simp

text \<open>
  Claim C6, evaluated on the code. On the line \<^verbatim>\<open>   // noise\<close> the single-line comment
  starts at column 3 behind white space only, and its flag is true; on the line
  \<^verbatim>\<open>x = 1; /* c */\<close> the multi-line comment stands behind code, and its flag is false.
  The helper \<^verbatim>\<open>isInlineComment\<close> of the same class gives the opposite answers, those
  of the claim, and is not called.
\<close>

theorem inline_flag_ignores_text_before:
  "map_option (map (\<lambda>c. (c_type c, c_text c, range_start (c_range c), isInlineComment c)))
     (extractComments doc_indented) =
     Some [(single, ''// noise'', \<lparr>line = 0, character = 3\<rparr>, True)] \<and>
   isInlineComment_helper (getText doc_indented) \<lparr>line = 0, character = 3\<rparr> = Some False \<and>
   map_option (map (\<lambda>c. (c_type c, c_text c, range_start (c_range c), isInlineComment c)))
     (extractComments doc_block_after_code) =
     Some [(multi, ''/* c */'', \<lparr>line = 0, character = 7\<rparr>, False)] \<and>
   isInlineComment_helper (getText doc_block_after_code) \<lparr>line = 0, character = 7\<rparr> = Some True"
  by code_simp

section \<open>The priority order\<close>

lemma find_first_match:
  "i < length rs \<Longrightarrow> fst (rs ! i) \<Longrightarrow> \<not> list_ex fst (take i rs) \<Longrightarrow> find fst rs = Some (rs ! i)"
proof (induction rs arbitrary: i)
  case Nil
  then show ?case by simp
next
  case (Cons r rs)
  then show ?case by (cases i) auto
qed

lemma find_no_match: "\<not> list_ex fst rs \<Longrightarrow> find fst rs = None"
  by (induction rs) auto

lemma analyzeComment_find:
  "analyzeComment c d =
     (case find fst (priority_rules c d) of Some br \<Rightarrow> snd br | None \<Rightarrow> regular_result)"
  by (simp add: analyzeComment_def priority_rules_def regular_result_def Let_def)

text \<open>
  Claim C4. For every comment and document the classifier returns one result: that of
  the first rule, in the order documentation (doc-block), critical, documentation
  (heuristic), commented code, redundant, noise, outdated, trivial, empty, duplicate,
  debug, whose predicate holds, and the default result (regular, confidence 0.3,
  shouldRemove false) when none holds. In terms of indices: a rule whose predicate holds
  while no predicate of an earlier rule holds gives the result, so a rule never
  overrides an earlier one.
\<close>

theorem first_matching_rule_decides:
  "analyzeComment c d =
     (case find fst (priority_rules c d) of Some br \<Rightarrow> snd br | None \<Rightarrow> regular_result) \<and>
   map (\<lambda>br. category (snd br)) (priority_rules c d) =
     [Documentation, Critical, Documentation, Commented_code, Redundant, Noise, Outdated,
      Trivial, Empty, Duplicate, Debug] \<and>
   category regular_result = Regular \<and> confidence regular_result = 3 / 10 \<and>
   \<not> shouldRemove regular_result \<and>
   (\<forall>i < length (priority_rules c d).
      fst (priority_rules c d ! i) \<and> \<not> list_ex fst (take i (priority_rules c d)) \<longrightarrow>
      analyzeComment c d = snd (priority_rules c d ! i)) \<and>
   (\<not> list_ex fst (priority_rules c d) \<longrightarrow> analyzeComment c d = regular_result)"
proof (intro conjI allI impI)
  show "analyzeComment c d =
     (case find fst (priority_rules c d) of Some br \<Rightarrow> snd br | None \<Rightarrow> regular_result)"
    by (rule analyzeComment_find)
  show "map (\<lambda>br. category (snd br)) (priority_rules c d) =
     [Documentation, Critical, Documentation, Commented_code, Redundant, Noise, Outdated,
      Trivial, Empty, Duplicate, Debug]"
    by (simp add: priority_rules_def Let_def)
  show "category regular_result = Regular" "confidence regular_result = 3 / 10"
    "\<not> shouldRemove regular_result"
    by (simp_all add: regular_result_def)
next
  fix i
  assume "i < length (priority_rules c d)"
    and "fst (priority_rules c d ! i) \<and> \<not> list_ex fst (take i (priority_rules c d))"
  then have "find fst (priority_rules c d) = Some (priority_rules c d ! i)"
    by (intro find_first_match) auto
  then show "analyzeComment c d = snd (priority_rules c d ! i)"
    by (simp add: analyzeComment_find)
next
  assume "\<not> list_ex fst (priority_rules c d)"
  then have "find fst (priority_rules c d) = None"
    by (rule find_no_match)
  then show "analyzeComment c d = regular_result"
    by (simp add: analyzeComment_find)
qed

theorem first_matching_rule_decides_witness:
  "fst (priority_rules comment_old doc_old ! 5) \<and> fst (priority_rules comment_old doc_old ! 6) \<and>
   \<not> list_ex fst (take 5 (priority_rules comment_old doc_old)) \<and>
   analyzeComment comment_old doc_old = snd (priority_rules comment_old doc_old ! 5) \<and>
   category (analyzeComment comment_old doc_old) = Noise"
proof -
  have l: "5 < length (priority_rules comment_old doc_old)"
    by (simp add: priority_rules_def Let_def)
  have f: "fst (priority_rules comment_old doc_old ! 5)"
    by code_simp
  have g: "fst (priority_rules comment_old doc_old ! 6)"
    by code_simp
  have n: "\<not> list_ex fst (take 5 (priority_rules comment_old doc_old))"
    by code_simp
  have c: "category (snd (priority_rules comment_old doc_old ! 5)) = Noise"
    by (simp add: priority_rules_def Let_def)
  from first_matching_rule_decides [of comment_old doc_old] l f n
  have "analyzeComment comment_old doc_old = snd (priority_rules comment_old doc_old ! 5)"
    by blast
  with f g n c show ?thesis by simp
qed

section \<open>What the matcher decides\<close>

lemma nullable_lang: "nullable r \<longleftrightarrow> [] \<in> lang r"
  by (induction r) (auto intro: star_empty)

lemma lang_seq_rx: "lang (seq_rx a b) = lang (Seq a b)"
  by (cases a; cases b) (auto simp: seq_rx_def)

lemma lang_alt_rx: "lang (alt_rx a b) = lang (Alt a b)"
  by (cases a; cases b) (auto simp: alt_rx_def)

lemma star_Cons:
  "c # w \<in> star A \<longleftrightarrow> (\<exists>u v. w = u @ v \<and> c # u \<in> A \<and> v \<in> star A)"
proof
  assume "c # w \<in> star A"
  then show "\<exists>u v. w = u @ v \<and> c # u \<in> A \<and> v \<in> star A"
  proof (induction "c # w" rule: star.induct)
    case (star_more u v)
    show ?case
    proof (cases u)
      case Nil
      with star_more show ?thesis by simp
    next
      case (Cons x xs)
      with star_more show ?thesis by auto
    qed
  qed
next
  assume "\<exists>u v. w = u @ v \<and> c # u \<in> A \<and> v \<in> star A"
  then obtain u v where "w = u @ v" "c # u \<in> A" "v \<in> star A" by blast
  then show "c # w \<in> star A"
    using star_more [of "c # u" A v] by simp
qed

lemma lang_deriv: "w \<in> lang (deriv c r) \<longleftrightarrow> c # w \<in> lang r"
proof (induction r arbitrary: w)
  case (Seq a b)
  show ?case
  proof (cases "nullable a")
    case True
    then have "[] \<in> lang a" by (simp add: nullable_lang)
    then show ?thesis
      using Seq by (auto simp: lang_alt_rx lang_seq_rx Cons_eq_append_conv True)
  next
    case False
    then have "[] \<notin> lang a" by (simp add: nullable_lang)
    then show ?thesis
      using Seq by (auto simp: lang_seq_rx Cons_eq_append_conv False)
  qed
next
  case (Star a)
  then show ?case by (auto simp: lang_seq_rx star_Cons)
qed (auto simp: lang_alt_rx)

lemma rx_match_lang: "rx_match r s \<longleftrightarrow> s \<in> lang r"
  by (induction s arbitrary: r) (auto simp: nullable_lang lang_deriv)

lemma rx_prefix_lang: "rx_prefix r s \<longleftrightarrow> (\<exists>u v. s = u @ v \<and> u \<in> lang r)"
proof (induction s arbitrary: r)
  case Nil
  show ?case by (simp add: nullable_lang)
next
  case (Cons c s)
  note IH = Cons.IH
  show ?case
  proof
    assume "rx_prefix r (c # s)"
    then consider "[] \<in> lang r" | u v where "s = u @ v" "c # u \<in> lang r"
      by (auto simp: nullable_lang IH lang_deriv)
    then show "\<exists>u v. c # s = u @ v \<and> u \<in> lang r"
    proof cases
      case 1
      then show ?thesis by (intro exI [of _ "[]"] exI [of _ "c # s"]) simp
    next
      case 2
      then show ?thesis by (intro exI [of _ "c # u"] exI [of _ v]) simp
    qed
  next
    assume "\<exists>u v. c # s = u @ v \<and> u \<in> lang r"
    then obtain u v where uv: "c # s = u @ v" "u \<in> lang r" by blast
    show "rx_prefix r (c # s)"
    proof (cases u)
      case Nil
      with uv have "nullable r" by (simp add: nullable_lang)
      then show ?thesis by simp
    next
      case (Cons x xs)
      with uv have "s = xs @ v" "c # xs \<in> lang r" by auto
      then have "rx_prefix (deriv c r) s"
        unfolding IH lang_deriv by blast
      then show ?thesis by simp
    qed
  qed
qed

lemma rx_search_lang: "rx_search r s \<longleftrightarrow> (\<exists>p u v. s = p @ u @ v \<and> u \<in> lang r)"
proof (induction s)
  case Nil
  show ?case by (simp add: nullable_lang)
next
  case (Cons c s)
  note IH = Cons.IH
  show ?case
  proof
    assume "rx_search r (c # s)"
    then consider "rx_prefix r (c # s)" | "rx_search r s" by auto
    then show "\<exists>p u v. c # s = p @ u @ v \<and> u \<in> lang r"
    proof cases
      case 1
      then obtain u v where "c # s = u @ v" "u \<in> lang r"
        by (auto simp: rx_prefix_lang)
      then show ?thesis by (intro exI [of _ "[]"] exI [of _ u] exI [of _ v]) simp
    next
      case 2
      then obtain p u v where "s = p @ u @ v" "u \<in> lang r"
        unfolding IH by blast
      then show ?thesis by (intro exI [of _ "c # p"] exI [of _ u] exI [of _ v]) simp
    qed
  next
    assume "\<exists>p u v. c # s = p @ u @ v \<and> u \<in> lang r"
    then obtain p u v where puv: "c # s = p @ u @ v" "u \<in> lang r" by blast
    show "rx_search r (c # s)"
    proof (cases p)
      case Nil
      with puv have "rx_prefix r (c # s)"
        by (auto simp: rx_prefix_lang)
      then show ?thesis by simp
    next
      case (Cons x xs)
      with puv have "s = xs @ u @ v" by simp
      with puv(2) have "rx_search r s"
        unfolding IH by blast
      then show ?thesis by simp
    qed
  qed
qed

lemma startsWith_prefix: "startsWith s p \<longleftrightarrow> prefix p s"
  by (induction s p rule: startsWith.induct) auto

lemma js_includes_sublist: "js_includes s p \<longleftrightarrow> sublist p s"
  by (induction s) (auto simp: startsWith_prefix sublist_Cons_right)

lemma star_sym: "w \<in> star {[c] | c. P c} \<longleftrightarrow> list_all P w"
proof
  assume "w \<in> star {[c] | c. P c}"
  then show "list_all P w"
    by (induction rule: star.induct) auto
next
  assume "list_all P w"
  then show "w \<in> star {[c] | c. P c}"
  proof (induction w)
    case Nil
    show ?case by (rule star_empty)
  next
    case (Cons c w)
    then have "[c] \<in> {[c] | c. P c}" "w \<in> star {[c] | c. P c}" by auto
    then have "[c] @ w \<in> star {[c] | c. P c}" by (rule star_more)
    then show ?case by simp
  qed
qed

lemma lang_SeqI: "u \<in> lang a \<Longrightarrow> v \<in> lang b \<Longrightarrow> u @ v \<in> lang (Seq a b)"
  by auto

lemma lang_SeqE:
  assumes "w \<in> lang (Seq a b)"
  obtains u v where "w = u @ v" "u \<in> lang a" "v \<in> lang b"
  using assms by auto

lemma in_lang_star_sym: "w \<in> lang (Star (Sym k)) \<longleftrightarrow> list_all (class_has k) w"
  by (simp add: star_sym)

lemma in_lang_plus_sym: "w \<in> lang (Plus (Sym k)) \<longleftrightarrow> w \<noteq> [] \<and> list_all (class_has k) w"
proof (cases w)
  case Nil
  then show ?thesis by (simp add: Plus_def)
next
  case (Cons c v)
  have "c # v \<in> lang (Plus (Sym k)) \<longleftrightarrow> class_has k c \<and> list_all (class_has k) v"
  proof
    assume "c # v \<in> lang (Plus (Sym k))"
    then obtain x y where "c # v = x @ y" "x \<in> lang (Sym k)" "y \<in> lang (Star (Sym k))"
      unfolding Plus_def by (rule lang_SeqE)
    then show "class_has k c \<and> list_all (class_has k) v"
      by (auto simp: star_sym)
  next
    assume a: "class_has k c \<and> list_all (class_has k) v"
    then have "[c] \<in> lang (Sym k)" "v \<in> lang (Star (Sym k))"
      by (auto simp: star_sym)
    then have "[c] @ v \<in> lang (Seq (Sym k) (Star (Sym k)))"
      by (rule lang_SeqI)
    then show "c # v \<in> lang (Plus (Sym k))"
      by (simp add: Plus_def)
  qed
  with Cons show ?thesis by simp
qed

lemma in_lang_lit: "w \<in> lang (Sym (Lit c)) \<longleftrightarrow> w = [c]"
  by auto

lemma lang_Str: "lang (Str s) = {s}"
  by (induction s) (auto simp: Str_def)

lemma lang_OneOf: "lang (OneOf ws) = set ws"
  by (induction ws) (auto simp: OneOf_def lang_Str)

lemma regex_test_search: "regex_test [Search r] s \<longleftrightarrow> (\<exists>p u v. s = p @ u @ v \<and> u \<in> lang r)"
  by (simp add: regex_test_def rx_search_lang)

text \<open>The three code shapes of the commented-code rule, spelt out.\<close>

lemma variable_assignment_shape:
  "regex_test variableAssignmentRegex n \<longleftrightarrow>
     (\<exists>p w1 s1 s2 w2 q. n = p @ w1 @ s1 @ ''='' @ s2 @ w2 @ q \<and>
        w1 \<noteq> [] \<and> list_all is_word w1 \<and> list_all is_space s1 \<and>
        list_all is_space s2 \<and> w2 \<noteq> [] \<and> list_all is_word w2)"
  (is "?L \<longleftrightarrow> ?R")
proof
  assume ?L
  then obtain p u v where n: "n = p @ u @ v"
    and "u \<in> lang (Cat [Plus (Sym CWord), Star (Sym CSpace), Sym (Lit (CHR ''='')),
           Star (Sym CSpace), Plus (Sym CWord)])"
    unfolding variableAssignmentRegex_def regex_test_search by blast
  then have m0: "u \<in> lang (Seq (Plus (Sym CWord)) (Seq (Star (Sym CSpace)) (Seq (Sym (Lit (CHR ''='')))
           (Seq (Star (Sym CSpace)) (Seq (Plus (Sym CWord)) Eps)))))"
    by (simp only: Cat_def foldr.simps o_apply id_apply)
  from m0 obtain w1 r1 where 1: "u = w1 @ r1" "w1 \<in> lang (Plus (Sym CWord))"
    and m1: "r1 \<in> lang (Seq (Star (Sym CSpace)) (Seq (Sym (Lit (CHR ''='')))
           (Seq (Star (Sym CSpace)) (Seq (Plus (Sym CWord)) Eps))))"
    by (rule lang_SeqE)
  from m1 obtain s1 r2 where 2: "r1 = s1 @ r2" "s1 \<in> lang (Star (Sym CSpace))"
    and m2: "r2 \<in> lang (Seq (Sym (Lit (CHR ''=''))) (Seq (Star (Sym CSpace)) (Seq (Plus (Sym CWord)) Eps)))"
    by (rule lang_SeqE)
  from m2 obtain e r3 where 3: "r2 = e @ r3" "e \<in> lang (Sym (Lit (CHR ''='')))"
    and m3: "r3 \<in> lang (Seq (Star (Sym CSpace)) (Seq (Plus (Sym CWord)) Eps))"
    by (rule lang_SeqE)
  from m3 obtain s2 r4 where 4: "r3 = s2 @ r4" "s2 \<in> lang (Star (Sym CSpace))"
    and m4: "r4 \<in> lang (Seq (Plus (Sym CWord)) Eps)"
    by (rule lang_SeqE)
  from m4 obtain w2 where 5: "r4 = w2" "w2 \<in> lang (Plus (Sym CWord))"
    by auto
  from 3 have e: "e = ''=''" by (simp only: in_lang_lit)
  have "n = p @ w1 @ s1 @ ''='' @ s2 @ w2 @ v"
    by (simp add: n 1 2 3 4 5 e)
  moreover from 1 2 4 5 have "w1 \<noteq> [] \<and> list_all is_word w1 \<and> list_all is_space s1 \<and>
        list_all is_space s2 \<and> w2 \<noteq> [] \<and> list_all is_word w2"
    by (simp add: in_lang_plus_sym in_lang_star_sym star_sym class_has.simps [abs_def])
  ultimately show ?R by blast
next
  assume ?R
  then obtain p w1 s1 s2 w2 q where n: "n = p @ w1 @ s1 @ ''='' @ s2 @ w2 @ q"
    and w1: "w1 \<in> lang (Plus (Sym CWord))" and s1: "s1 \<in> lang (Star (Sym CSpace))"
    and s2: "s2 \<in> lang (Star (Sym CSpace))" and w2: "w2 \<in> lang (Plus (Sym CWord))"
    by (auto simp: in_lang_plus_sym in_lang_star_sym star_sym class_has.simps [abs_def])
  have e: "''='' \<in> lang (Sym (Lit (CHR ''='')))" by simp
  have "[] \<in> lang Eps" by simp
  from lang_SeqI [OF w1 lang_SeqI [OF s1 lang_SeqI [OF e lang_SeqI [OF s2 lang_SeqI [OF w2 this]]]]]
  have "w1 @ s1 @ ''='' @ s2 @ w2 \<in> lang (Cat [Plus (Sym CWord), Star (Sym CSpace),
      Sym (Lit (CHR ''='')), Star (Sym CSpace), Plus (Sym CWord)])"
    by (simp add: Cat_def)
  moreover have "n = p @ (w1 @ s1 @ ''='' @ s2 @ w2) @ q"
    by (simp add: n)
  ultimately show ?L
    unfolding variableAssignmentRegex_def regex_test_search by blast
qed

lemma function_call_shape:
  "regex_test functionCallRegex n \<longleftrightarrow>
     (\<exists>p w s a q. n = p @ w @ s @ ''('' @ a @ '')'' @ q \<and>
        w \<noteq> [] \<and> list_all is_word w \<and> list_all is_space s \<and> CHR '')'' \<notin> set a)"
  (is "?L \<longleftrightarrow> ?R")
proof
  assume ?L
  then obtain p u v where n: "n = p @ u @ v"
    and "u \<in> lang (Cat [Plus (Sym CWord), Star (Sym CSpace), Sym (Lit (CHR ''('')),
           Star (Sym (NotLit (CHR '')''))), Sym (Lit (CHR '')''))])"
    unfolding functionCallRegex_def regex_test_search by blast
  then have m0: "u \<in> lang (Seq (Plus (Sym CWord)) (Seq (Star (Sym CSpace)) (Seq (Sym (Lit (CHR ''('')))
           (Seq (Star (Sym (NotLit (CHR '')'')))) (Seq (Sym (Lit (CHR '')''))) Eps)))))"
    by (simp only: Cat_def foldr.simps o_apply id_apply)
  from m0 obtain w r1 where 1: "u = w @ r1" "w \<in> lang (Plus (Sym CWord))"
    and m5: "r1 \<in> lang (Seq (Star (Sym CSpace)) (Seq (Sym (Lit (CHR ''('')))
           (Seq (Star (Sym (NotLit (CHR '')'')))) (Seq (Sym (Lit (CHR '')''))) Eps))))"
    by (rule lang_SeqE)
  from m5 obtain s r2 where 2: "r1 = s @ r2" "s \<in> lang (Star (Sym CSpace))"
    and m6: "r2 \<in> lang (Seq (Sym (Lit (CHR ''(''))) (Seq (Star (Sym (NotLit (CHR '')''))))
           (Seq (Sym (Lit (CHR '')''))) Eps)))"
    by (rule lang_SeqE)
  from m6 obtain e r3 where 3: "r2 = e @ r3" "e \<in> lang (Sym (Lit (CHR ''('')))"
    and m7: "r3 \<in> lang (Seq (Star (Sym (NotLit (CHR '')'')))) (Seq (Sym (Lit (CHR '')''))) Eps))"
    by (rule lang_SeqE)
  from m7 obtain a r4 where 4: "r3 = a @ r4" "a \<in> lang (Star (Sym (NotLit (CHR '')''))))"
    and m8: "r4 \<in> lang (Seq (Sym (Lit (CHR '')''))) Eps)"
    by (rule lang_SeqE)
  from m8 have 5: "r4 = '')''" by auto
  from 3 have e: "e = ''(''" by (simp only: in_lang_lit)
  have "n = p @ w @ s @ ''('' @ a @ '')'' @ v"
    by (simp add: n 1 2 3 4 5 e)
  moreover from 1 2 4 have "w \<noteq> [] \<and> list_all is_word w \<and> list_all is_space s \<and> CHR '')'' \<notin> set a"
    by (auto simp: in_lang_plus_sym in_lang_star_sym star_sym class_has.simps [abs_def] list_all_iff)
  ultimately show ?R by blast
next
  assume ?R
  then obtain p w s a q where n: "n = p @ w @ s @ ''('' @ a @ '')'' @ q"
    and raw: "w \<noteq> []" "list_all is_word w" "list_all is_space s" "CHR '')'' \<notin> set a"
    by blast
  from raw have w: "w \<in> lang (Plus (Sym CWord))" and s: "s \<in> lang (Star (Sym CSpace))"
    by (simp_all add: in_lang_plus_sym in_lang_star_sym star_sym class_has.simps [abs_def])
  from raw have a: "a \<in> lang (Star (Sym (NotLit (CHR '')''))))"
    by (auto simp: in_lang_star_sym star_sym list_all_iff)
  have e: "''('' \<in> lang (Sym (Lit (CHR ''('')))" by simp
  have c: "'')'' \<in> lang (Sym (Lit (CHR '')'')))" by simp
  have "[] \<in> lang Eps" by simp
  from lang_SeqI [OF w lang_SeqI [OF s lang_SeqI [OF e lang_SeqI [OF a lang_SeqI [OF c this]]]]]
  have "w @ s @ ''('' @ a @ '')'' \<in> lang (Cat [Plus (Sym CWord), Star (Sym CSpace),
      Sym (Lit (CHR ''('')), Star (Sym (NotLit (CHR '')''))), Sym (Lit (CHR '')''))])"
    by (simp add: Cat_def)
  moreover have "n = p @ (w @ s @ ''('' @ a @ '')'') @ q"
    by (simp add: n)
  ultimately show ?L
    unfolding functionCallRegex_def regex_test_search by blast
qed

lemma code_flow_shape:
  "regex_test codeFlowRegex n \<longleftrightarrow>
     (\<exists>p k s q. n = p @ k @ s @ ''('' @ q \<and>
        k \<in> {''if'', ''for'', ''while'', ''try''} \<and> list_all is_space s)"
  (is "?L \<longleftrightarrow> ?R")
proof
  assume ?L
  then obtain p u v where n: "n = p @ u @ v"
    and "u \<in> lang (Cat [OneOf [''if'', ''for'', ''while'', ''try''], Star (Sym CSpace),
           Sym (Lit (CHR ''(''))])"
    unfolding codeFlowRegex_def regex_test_search by blast
  then have m0: "u \<in> lang (Seq (OneOf [''if'', ''for'', ''while'', ''try'']) (Seq (Star (Sym CSpace))
           (Seq (Sym (Lit (CHR ''(''))) Eps)))"
    by (simp only: Cat_def foldr.simps o_apply id_apply)
  from m0 obtain k r1 where 1: "u = k @ r1" "k \<in> lang (OneOf [''if'', ''for'', ''while'', ''try''])"
    and m9: "r1 \<in> lang (Seq (Star (Sym CSpace)) (Seq (Sym (Lit (CHR ''(''))) Eps))"
    by (rule lang_SeqE)
  from m9 obtain s r2 where 2: "r1 = s @ r2" "s \<in> lang (Star (Sym CSpace))"
    and m10: "r2 \<in> lang (Seq (Sym (Lit (CHR ''(''))) Eps)"
    by (rule lang_SeqE)
  from m10 have 3: "r2 = ''(''" by auto
  have "n = p @ k @ s @ ''('' @ v"
    by (simp add: n 1 2 3)
  moreover from 1 2 have "k \<in> {''if'', ''for'', ''while'', ''try''} \<and> list_all is_space s"
    by (simp add: lang_OneOf in_lang_star_sym star_sym class_has.simps [abs_def])
  ultimately show ?R by blast
next
  assume ?R
  then obtain p k s q where n: "n = p @ k @ s @ ''('' @ q"
    and k: "k \<in> lang (OneOf [''if'', ''for'', ''while'', ''try''])"
    and s: "s \<in> lang (Star (Sym CSpace))"
    by (auto simp: lang_OneOf in_lang_star_sym star_sym class_has.simps [abs_def])
  have e: "''('' \<in> lang (Sym (Lit (CHR ''('')))" by simp
  have "[] \<in> lang Eps" by simp
  from lang_SeqI [OF k lang_SeqI [OF s lang_SeqI [OF e this]]]
  have "k @ s @ ''('' \<in> lang (Cat [OneOf [''if'', ''for'', ''while'', ''try''], Star (Sym CSpace),
      Sym (Lit (CHR ''(''))])"
    by (simp add: Cat_def)
  moreover have "n = p @ (k @ s @ ''('') @ q"
    by (simp add: n)
  ultimately show ?L
    unfolding codeFlowRegex_def regex_test_search by blast
qed

section \<open>The commented-code rule\<close>

text \<open>
  Claim C5 as stated fails in both directions. The normalized comment
  \<^verbatim>\<open>great motif letters\<close> has no code symbol, no keyword as a whole word and none of
  the three shapes, yet the rule fires on it for JavaScript: \<^verbatim>\<open>if\<close> is found in
  \<^verbatim>\<open>motif\<close> before a blank and \<^verbatim>\<open>let\<close> in \<^verbatim>\<open>letters\<close> behind a blank. And
  \<^verbatim>\<open>import,export\<close> has two keywords as whole words, yet the rule does not fire,
  since no blank stands next to either.
\<close>

theorem keyword_inside_identifier_counterexample:
  "extractComments doc_motif = Some [comment_motif] \<and>
   cleanCommentText (c_text comment_motif) = ''great motif letters'' \<and>
   isCommentedCode ''great motif letters'' (getLanguageConfig (languageId doc_motif)) \<and>
   \<not> spec_commented_code ''great motif letters'' javascript_config \<and>
   category (analyzeComment comment_motif doc_motif) = Commented_code \<and>
   spec_commented_code ''import,export'' javascript_config \<and>
   \<not> isCommentedCode ''import,export'' (Some javascript_config)"
  by code_simp

text \<open>
  Claim C5, amended. On a normalized comment the commented-code rule fires exactly when
  the comment has at least 3 characters and at least 3 entries of the symbol list occur
  in it, or at least 2 keywords of the language occur in it directly followed by a blank
  or directly preceded by a blank (so a keyword at the end or at the start of a longer
  identifier counts, and a keyword without a blank next to it does not), or it contains
  a word, optional white space, \<^verbatim>\<open>=\<close>, optional white space and a word, or a word,
  optional white space and a parenthesized part without a closing parenthesis inside,
  or one of if, for, while, try followed by optional white space and an opening
  parenthesis. When the rule is reached and fires, the classification is commented code
  with confidence 0.9 and shouldRemove true.
\<close>

theorem commented_code_rule:
  "(isCommentedCode n (Some cfg) \<longleftrightarrow>
      3 \<le> length n \<and>
      (3 \<le> length (filter (\<lambda>s. sublist s n) codeSymbols) \<or>
       2 \<le> length (filter (\<lambda>k. sublist (k @ '' '') n \<or> sublist ('' '' @ k) n) (lang_keywords cfg)) \<or>
       (\<exists>p w1 s1 s2 w2 q. n = p @ w1 @ s1 @ ''='' @ s2 @ w2 @ q \<and>
          w1 \<noteq> [] \<and> list_all is_word w1 \<and> list_all is_space s1 \<and>
          list_all is_space s2 \<and> w2 \<noteq> [] \<and> list_all is_word w2) \<or>
       (\<exists>p w s a q. n = p @ w @ s @ ''('' @ a @ '')'' @ q \<and>
          w \<noteq> [] \<and> list_all is_word w \<and> list_all is_space s \<and> CHR '')'' \<notin> set a) \<or>
       (\<exists>p k s q. n = p @ k @ s @ ''('' @ q \<and>
          k \<in> {''if'', ''for'', ''while'', ''try''} \<and> list_all is_space s))) \<and>
   (\<not> (c_type c = docblock \<or> isDocBlock c) \<and>
    \<not> isCriticalComment (cleanCommentText (c_text c)) \<and>
    \<not> isDocumentation (cleanCommentText (c_text c)) (c_context c) \<and>
    isCommentedCode (cleanCommentText (c_text c)) (getLanguageConfig (languageId d)) \<longrightarrow>
      analyzeComment c d =
        \<lparr>category = Commented_code, shouldRemove = True, confidence = 9 / 10,
         reasons = [''Appears to be commented-out code'']\<rparr>)"
proof (intro conjI impI)
  show "isCommentedCode n (Some cfg) \<longleftrightarrow>
      3 \<le> length n \<and>
      (3 \<le> length (filter (\<lambda>s. sublist s n) codeSymbols) \<or>
       2 \<le> length (filter (\<lambda>k. sublist (k @ '' '') n \<or> sublist ('' '' @ k) n) (lang_keywords cfg)) \<or>
       (\<exists>p w1 s1 s2 w2 q. n = p @ w1 @ s1 @ ''='' @ s2 @ w2 @ q \<and>
          w1 \<noteq> [] \<and> list_all is_word w1 \<and> list_all is_space s1 \<and>
          list_all is_space s2 \<and> w2 \<noteq> [] \<and> list_all is_word w2) \<or>
       (\<exists>p w s a q. n = p @ w @ s @ ''('' @ a @ '')'' @ q \<and>
          w \<noteq> [] \<and> list_all is_word w \<and> list_all is_space s \<and> CHR '')'' \<notin> set a) \<or>
       (\<exists>p k s q. n = p @ k @ s @ ''('' @ q \<and>
          k \<in> {''if'', ''for'', ''while'', ''try''} \<and> list_all is_space s))"
    unfolding isCommentedCode_def option.case Let_def symbolCount_def keywordCount_def
      js_includes_sublist variable_assignment_shape function_call_shape code_flow_shape
    by (simp add: not_less)
next
  assume "\<not> (c_type c = docblock \<or> isDocBlock c) \<and>
    \<not> isCriticalComment (cleanCommentText (c_text c)) \<and>
    \<not> isDocumentation (cleanCommentText (c_text c)) (c_context c) \<and>
    isCommentedCode (cleanCommentText (c_text c)) (getLanguageConfig (languageId d))"
  then show "analyzeComment c d =
        \<lparr>category = Commented_code, shouldRemove = True, confidence = 9 / 10,
         reasons = [''Appears to be commented-out code'']\<rparr>"
    by (simp add: analyzeComment_def Let_def)
qed

theorem commented_code_rule_witness:
  "extractComments doc_assign = Some [comment_assign] \<and>
   cleanCommentText (c_text comment_assign) = ''x = x + 1'' \<and>
   isCommentedCode ''x = x + 1'' (getLanguageConfig (languageId doc_assign)) \<and>
   analyzeComment comment_assign doc_assign =
     \<lparr>category = Commented_code, shouldRemove = True, confidence = 9 / 10,
      reasons = [''Appears to be commented-out code'']\<rparr>"
proof -
  have e: "extractComments doc_assign = Some [comment_assign]"
    by code_simp
  have n: "cleanCommentText (c_text comment_assign) = ''x = x + 1''"
    by code_simp
  have 1: "\<not> (c_type comment_assign = docblock \<or> isDocBlock comment_assign)"
    by (simp add: comment_assign_def)
  have 2: "\<not> isCriticalComment (cleanCommentText (c_text comment_assign))"
    by code_simp
  have 3: "\<not> isDocumentation (cleanCommentText (c_text comment_assign)) (c_context comment_assign)"
    by code_simp
  have 4: "isCommentedCode (cleanCommentText (c_text comment_assign))
      (getLanguageConfig (languageId doc_assign))"
    by code_simp
  from commented_code_rule [of _ _ comment_assign doc_assign] 1 2 3 4
  have "analyzeComment comment_assign doc_assign =
     \<lparr>category = Commented_code, shouldRemove = True, confidence = 9 / 10,
      reasons = [''Appears to be commented-out code'']\<rparr>"
    by blast
  with e n 4 show ?thesis by simp
qed

section \<open>The redundancy score\<close>

lemma weighted_sum_nonneg:
  fixes e p s t :: nat
  shows "0 \<le> (of_nat e * 1 + of_nat p * (7 / 10) + of_nat s * (1 / 2)) / (of_nat t :: rat)"
  by (intro divide_nonneg_nonneg add_nonneg_nonneg mult_nonneg_nonneg) simp_all

lemma redundancy_score_cases:
  "calculateRedundancyScore n ctx = 0 \<or>
   (\<exists>e p s t :: nat. calculateRedundancyScore n ctx =
      min ((of_nat e * 1 + of_nat p * (7 / 10) + of_nat s * (1 / 2)) / of_nat t) (95 / 100))"
proof (cases "length n < 3 \<or> nextNonEmptyLine ctx = []")
  case True
  then show ?thesis
    unfolding calculateRedundancyScore_def by (simp only: if_True simp_thms)
next
  case False
  note outer = this
  show ?thesis
  proof (cases "length (filter (\<lambda>word. length word > 2) (split_ws n)) = 0 \<or>
      length (filter (\<lambda>word. length word > 2) (split_ws (map (\<lambda>c. if is_alnum c then c else CHR '' '')
        (toLowerCase (nextNonEmptyLine ctx))))) = 0")
    case True
    with outer show ?thesis
      unfolding calculateRedundancyScore_def Let_def by (simp only: if_True if_False simp_thms)
  next
    case False
    with outer have "calculateRedundancyScore n ctx =
      min ((of_nat (exactMatches (foldl (count_word (filter (\<lambda>word. length word > 2)
              (split_ws (map (\<lambda>c. if is_alnum c then c else CHR '' '')
                (toLowerCase (nextNonEmptyLine ctx))))))
              \<lparr>exactMatches = 0, partialMatches = 0, semanticMatches = 0\<rparr>
              (filter (\<lambda>word. length word > 2) (split_ws n)))) * 1 +
            of_nat (partialMatches (foldl (count_word (filter (\<lambda>word. length word > 2)
              (split_ws (map (\<lambda>c. if is_alnum c then c else CHR '' '')
                (toLowerCase (nextNonEmptyLine ctx))))))
              \<lparr>exactMatches = 0, partialMatches = 0, semanticMatches = 0\<rparr>
              (filter (\<lambda>word. length word > 2) (split_ws n)))) * (7 / 10) +
            of_nat (semanticMatches (foldl (count_word (filter (\<lambda>word. length word > 2)
              (split_ws (map (\<lambda>c. if is_alnum c then c else CHR '' '')
                (toLowerCase (nextNonEmptyLine ctx))))))
              \<lparr>exactMatches = 0, partialMatches = 0, semanticMatches = 0\<rparr>
              (filter (\<lambda>word. length word > 2) (split_ws n)))) * (1 / 2)) /
           of_nat (length (filter (\<lambda>word. length word > 2) (split_ws n)))) (95 / 100)"
      unfolding calculateRedundancyScore_def Let_def by (simp only: if_False)
    then show ?thesis by blast
  qed
qed

text \<open>
  Claim C8. For every normalized comment and every context the redundancy score lies
  between 0 and 0.95, and it is 0 when the comment has fewer than 3 characters or the
  context has no next non-blank line. (The score is computed in the rationals.)
\<close>

theorem redundancy_score_bounds:
  "0 \<le> calculateRedundancyScore n ctx \<and> calculateRedundancyScore n ctx \<le> 95 / 100 \<and>
   (length n < 3 \<or> nextNonEmptyLine ctx = [] \<longrightarrow> calculateRedundancyScore n ctx = 0)"
proof (intro conjI impI)
  from redundancy_score_cases [of n ctx]
  show "0 \<le> calculateRedundancyScore n ctx"
  proof
    assume "calculateRedundancyScore n ctx = 0"
    then show ?thesis by simp
  next
    assume "\<exists>e p s t :: nat. calculateRedundancyScore n ctx =
      min ((of_nat e * 1 + of_nat p * (7 / 10) + of_nat s * (1 / 2)) / of_nat t) (95 / 100)"
    then obtain e p s t :: nat where "calculateRedundancyScore n ctx =
      min ((of_nat e * 1 + of_nat p * (7 / 10) + of_nat s * (1 / 2)) / of_nat t) (95 / 100)"
      by blast
    moreover have "(0 :: rat) \<le> 95 / 100" by simp
    ultimately show ?thesis
      using weighted_sum_nonneg [of e p s t] by (simp only: min.bounded_iff simp_thms)
  qed
  from redundancy_score_cases [of n ctx]
  show "calculateRedundancyScore n ctx \<le> 95 / 100"
  proof
    assume "calculateRedundancyScore n ctx = 0"
    then show ?thesis by simp
  next
    assume "\<exists>e p s t :: nat. calculateRedundancyScore n ctx =
      min ((of_nat e * 1 + of_nat p * (7 / 10) + of_nat s * (1 / 2)) / of_nat t) (95 / 100)"
    then obtain e p s t :: nat where "calculateRedundancyScore n ctx =
      min ((of_nat e * 1 + of_nat p * (7 / 10) + of_nat s * (1 / 2)) / of_nat t) (95 / 100)"
      by blast
    then show ?thesis by (simp only: min.cobounded2)
  qed
next
  assume "length n < 3 \<or> nextNonEmptyLine ctx = []"
  then show "calculateRedundancyScore n ctx = 0"
    unfolding calculateRedundancyScore_def by (simp only: if_True)
qed

theorem redundancy_score_bounds_witness:
  "calculateRedundancyScore ''ok'' (ctx_next ''ok = 1'') = 0 \<and>
   calculateRedundancyScore ''get value'' (ctx_next []) = 0 \<and>
   calculateRedundancyScore ''get the value now'' (ctx_next ''x = fetch_value()'') = 3 / 8 \<and>
   calculateRedundancyScore ''get value'' (ctx_next ''get_value()'') = 95 / 100"
proof -
  have a: "length ''ok'' < 3 \<or> nextNonEmptyLine (ctx_next ''ok = 1'') = []" by simp
  have b: "length ''get value'' < 3 \<or> nextNonEmptyLine (ctx_next []) = []"
    by (simp add: ctx_next_def)
  have c: "calculateRedundancyScore ''get the value now'' (ctx_next ''x = fetch_value()'') = 3 / 8"
    by code_simp
  have d: "calculateRedundancyScore ''get value'' (ctx_next ''get_value()'') = 95 / 100"
    by code_simp
  from redundancy_score_bounds [of "''ok''" "ctx_next ''ok = 1''"] a
    redundancy_score_bounds [of "''get value''" "ctx_next []"] b c d
  show ?thesis by blast
qed

section \<open>Whole line or span\<close>

lemma trim_Nil_iff: "trim s = [] \<longleftrightarrow> list_all is_space s"
proof -
  have "trim s = [] \<longleftrightarrow> list_all is_space (dropWhile is_space s)"
    by (simp add: trim_def dropWhile_eq_Nil_conv list_all_iff)
  also have "\<dots> \<longleftrightarrow> dropWhile is_space s = []"
  proof
    assume a: "list_all is_space (dropWhile is_space s)"
    show "dropWhile is_space s = []"
    proof (rule ccontr)
      assume n: "dropWhile is_space s \<noteq> []"
      then have "\<not> is_space (hd (dropWhile is_space s))" by (rule hd_dropWhile)
      moreover from n have "hd (dropWhile is_space s) \<in> set (dropWhile is_space s)" by simp
      ultimately show False using a by (simp add: list_all_iff)
    qed
  next
    assume e: "dropWhile is_space s = []"
    show "list_all is_space (dropWhile is_space s)"
      unfolding e by simp
  qed
  also have "\<dots> \<longleftrightarrow> list_all is_space s"
    by (simp add: dropWhile_eq_Nil_conv list_all_iff)
  finally show ?thesis .
qed


section \<open>Positions, the sort and the plan of extracted comments\<close>

text \<open>
  The two conversions of the host agree: an offset's position is a position of the text,
  and converting it back gives the offset (cut at the length of the text).
\<close>

lemma positionAt_valid_at: "valid_at t (line (positionAt t k)) (character (positionAt t k))"
proof (induction t arbitrary: k)
  case Nil
  show ?case by simp
next
  case (Cons c cs)
  show ?case
  proof (cases k)
    case 0
    then show ?thesis by simp
  next
    case (Suc j)
    with Cons [of j] show ?thesis
      by (cases "line (positionAt cs j)") (auto simp: Let_def)
  qed
qed

lemma positionAt_valid: "valid_position t (positionAt t k)"
  unfolding valid_position_def by (rule positionAt_valid_at)

lemma offsetAt_positionAt: "offsetAt t (positionAt t k) = min k (length t)"
proof (induction t arbitrary: k)
  case Nil
  show ?case by (simp add: offsetAt_def)
next
  case (Cons c cs)
  show ?case
  proof (cases k)
    case 0
    then show ?thesis by (simp add: offsetAt_def)
  next
    case (Suc j)
    with Cons [of j] show ?thesis
      by (cases "line (positionAt cs j)"; cases "character (positionAt cs j)")
        (auto simp: Let_def offsetAt_def)
  qed
qed

lemma positionAt_mono: "j \<le> k \<Longrightarrow> position_le (positionAt t j) (positionAt t k)"
proof (induction t arbitrary: j k)
  case Nil
  show ?case by (simp add: position_le_def)
next
  case (Cons c cs)
  show ?case
  proof (cases j)
    case 0
    then show ?thesis by (cases k) (auto simp: position_le_def Let_def)
  next
    case (Suc j')
    with Cons.prems obtain k' where k: "k = Suc k'" "j' \<le> k'" by (cases k) auto
    from Cons.IH [OF k(2)] Suc k show ?thesis
      by (auto simp: position_le_def Let_def)
  qed
qed

lemma valid_at_line_start: "l < lineCount t \<Longrightarrow> valid_at t l 0"
proof (induction t l "0 :: nat" rule: valid_at.induct)
  case (1 l)
  then show ?case by (simp add: lineCount_def)
next
  case (2 c cs)
  show ?case by simp
next
  case (4 c cs l)
  then show ?case by (auto simp: lineCount_Cons split: if_splits)
qed

text \<open>The sort keeps the selection and orders it by the comparator, later starts first.\<close>

lemma set_insert_item: "set (insert_item x ys) = insert x (set ys)"
  by (induction ys) auto

lemma set_sort_descending: "set (sort_descending xs) = set xs"
  by (induction xs) (auto simp: sort_descending_def set_insert_item)

lemma length_insert_item: "length (insert_item x ys) = Suc (length ys)"
  by (induction ys) auto

lemma length_sort_descending: "length (sort_descending xs) = length xs"
  by (induction xs) (auto simp: sort_descending_def length_insert_item)

lemma sort_compare_le:
  "sort_compare a b \<le> 0 \<longleftrightarrow>
     position_le (range_start (c_range (item_comment b))) (range_start (c_range (item_comment a)))"
  by (auto simp: sort_compare_def compareTo_def position_le_def)

lemma sorted_insert_item:
  "sorted_wrt (\<lambda>a b. sort_compare a b \<le> 0) ys \<Longrightarrow>
     sorted_wrt (\<lambda>a b. sort_compare a b \<le> 0) (insert_item x ys)"
proof (induction ys)
  case Nil
  show ?case by simp
next
  case (Cons y ys)
  show ?case
  proof (cases "sort_compare x y \<le> 0")
    case True
    have "sort_compare x z \<le> 0" if "z \<in> set ys" for z
    proof -
      from Cons.prems that have "sort_compare y z \<le> 0" by auto
      with True show ?thesis
        unfolding sort_compare_le by (auto simp: position_le_def)
    qed
    with True Cons.prems show ?thesis by auto
  next
    case False
    then have "sort_compare y x \<le> 0"
      by (auto simp: sort_compare_def compareTo_def split: if_splits)
    with False Cons show ?thesis
      by (auto simp: set_insert_item)
  qed
qed

lemma sorted_sort_descending:
  "sorted_wrt (\<lambda>a b. sort_compare a b \<le> 0) (sort_descending xs)"
  by (induction xs) (auto simp: sort_descending_def sorted_insert_item)

lemma single_comment_range:
  "single_comment t im = Some y \<Longrightarrow>
     c_range y = \<lparr>range_start = positionAt t (fst im),
                   range_end = positionAt t (fst im + length (snd im))\<rparr>"
  unfolding single_comment_def Let_def
  by (cases "getContext t (line (positionAt t (fst im)))") auto

lemma multi_comment_range:
  "multi_comment t im = Some y \<Longrightarrow>
     c_range y = \<lparr>range_start = positionAt t (fst im),
                   range_end = positionAt t (fst im + length (snd im))\<rparr>"
  unfolding multi_comment_def Let_def
  by (cases "getContext t (line (positionAt t (fst im)))") auto

lemma those_map_member:
  "those (map f xs) = Some ys \<Longrightarrow> y \<in> set ys \<Longrightarrow> \<exists>x \<in> set xs. f x = Some y"
proof (induction xs arbitrary: ys)
  case Nil
  then show ?case by simp
next
  case (Cons x xs)
  then show ?case
    by (auto split: option.splits)
qed

lemma extractComments_parts:
  assumes "extractComments d = Some cs"
  shows "cs = [] \<or> (\<exists>(cfg :: language_config) ss ms. cs = ss @ ms \<and>
      (case singleLine cfg of None \<Rightarrow> Some []
        | Some rx \<Rightarrow> those (map (single_comment (getText d)) (exec_line rx (getText d)))) = Some ss \<and>
      (case multiLine cfg of None \<Rightarrow> Some []
        | Some rx \<Rightarrow> those (map (multi_comment (getText d)) (exec_block rx (getText d)))) = Some ms)"
proof (cases "getLanguageConfig (languageId d)")
  case None
  with assms show ?thesis by (simp add: extractComments_def)
next
  case (Some cfg)
  define S where "S = (case singleLine cfg of None \<Rightarrow> Some []
        | Some rx \<Rightarrow> those (map (single_comment (getText d)) (exec_line rx (getText d))))"
  define M where "M = (case multiLine cfg of None \<Rightarrow> Some []
        | Some rx \<Rightarrow> those (map (multi_comment (getText d)) (exec_block rx (getText d))))"
  have e: "(case S of None \<Rightarrow> None
        | Some singles \<Rightarrow> (case M of None \<Rightarrow> None | Some multis \<Rightarrow> Some (singles @ multis)))
        = Some cs"
    using assms unfolding extractComments_def Some option.case S_def M_def .
  then obtain ss where ss: "S = Some ss" by (cases S) simp_all
  with e obtain ms where ms: "M = Some ms" by (cases M) simp_all
  from e ss ms have "cs = ss @ ms" by simp
  with ss ms have X: "cs = ss @ ms \<and>
      (case singleLine cfg of None \<Rightarrow> Some []
        | Some rx \<Rightarrow> those (map (single_comment (getText d)) (exec_line rx (getText d)))) = Some ss \<and>
      (case multiLine cfg of None \<Rightarrow> Some []
        | Some rx \<Rightarrow> those (map (multi_comment (getText d)) (exec_block rx (getText d)))) = Some ms"
    unfolding S_def M_def by (intro conjI)
  show ?thesis
    by (rule disjI2, rule exI [of _ cfg], rule exI [of _ ss], rule exI [of _ ms], rule X)
qed

text \<open>The range of an extracted comment runs between two positions of its text.\<close>

lemma extracted_comment_range:
  assumes "extractComments d = Some cs" and "c \<in> set cs"
  shows "\<exists>i n. c_range c = \<lparr>range_start = positionAt (getText d) i,
                              range_end = positionAt (getText d) (i + n)\<rparr>"
proof -
  from extractComments_parts [OF assms(1)] assms(2) obtain cfg :: language_config and ss ms
    where cs: "cs = ss @ ms"
      and ss: "(case singleLine cfg of None \<Rightarrow> Some []
        | Some rx \<Rightarrow> those (map (single_comment (getText d)) (exec_line rx (getText d)))) = Some ss"
      and ms: "(case multiLine cfg of None \<Rightarrow> Some []
        | Some rx \<Rightarrow> those (map (multi_comment (getText d)) (exec_block rx (getText d)))) = Some ms"
    by auto
  from assms(2) cs consider (s) "c \<in> set ss" | (m) "c \<in> set ms" by auto
  then show ?thesis
  proof cases
    case s
    with ss obtain rx
      where "those (map (single_comment (getText d)) (exec_line rx (getText d))) = Some ss"
      by (cases "singleLine cfg") auto
    from those_map_member [OF this s] obtain im
      where "single_comment (getText d) im = Some c" by blast
    from single_comment_range [OF this] show ?thesis
      by (intro exI [of _ "fst im"] exI [of _ "length (snd im)"])
  next
    case m
    with ms obtain rx
      where "those (map (multi_comment (getText d)) (exec_block rx (getText d))) = Some ms"
      by (cases "multiLine cfg") auto
    from those_map_member [OF this m] obtain im
      where "multi_comment (getText d) im = Some c" by blast
    from multi_comment_range [OF this] show ?thesis
      by (intro exI [of _ "fst im"] exI [of _ "length (snd im)"])
  qed
qed

text \<open>For an extracted comment the deletion exists and is well formed in the text.\<close>

lemma extracted_deletion_range_well_formed:
  assumes "extractComments d = Some cs" and "c \<in> set cs"
  shows "\<exists>r. deletion_range (getText d) c = Some r \<and> well_formed_range (getText d) r"
proof -
  let ?t = "getText d"
  from extracted_comment_range [OF assms] obtain i n
    where r: "c_range c = \<lparr>range_start = positionAt ?t i, range_end = positionAt ?t (i + n)\<rparr>"
    by blast
  let ?l = "line (positionAt ?t i)"
  have l: "?l < lineCount ?t" by (rule positionAt_line_lt)
  then obtain ln where ln: "lineAt ?t ?l = Some ln" by (simp add: lineAt_def)
  have span: "well_formed_range ?t (c_range c)"
    unfolding r well_formed_range_def
    by (simp add: positionAt_valid positionAt_mono)
  have whole: "well_formed_range ?t
      \<lparr>range_start = \<lparr>line = ?l, character = 0\<rparr>, range_end = \<lparr>line = ?l + 1, character = 0\<rparr>\<rparr>"
  proof (cases "?l + 1 < lineCount ?t")
    case True
    with l show ?thesis
      by (simp add: well_formed_range_def valid_position_def valid_at_line_start position_le_def)
  next
    case False
    with l have "?l + 1 = lineCount ?t" by simp
    with l show ?thesis
      by (simp add: well_formed_range_def valid_position_def valid_at_line_start position_le_def)
  qed
  from ln span whole show ?thesis
    by (simp add: deletion_range_def r Let_def)
qed

text \<open>So \<^verbatim>\<open>removeComments\<close> never throws on a selection of extracted comments.\<close>

lemma extracted_removal_plan_total:
  assumes "extractComments d = Some cs" and "\<And>x. x \<in> set xs \<Longrightarrow> item_comment x \<in> set cs"
  shows "\<exists>rs. removal_plan (getText d) xs = Some rs \<and> list_all (well_formed_range (getText d)) rs"
  unfolding removal_plan_def
proof (rule those_map_all)
  fix x assume "x \<in> set (sort_descending xs)"
  then have "item_comment x \<in> set cs"
    using assms(2) by (simp add: set_sort_descending)
  with assms(1) show "\<exists>r. deletion_range (getText d) (item_comment x) = Some r \<and>
      well_formed_range (getText d) r"
    by (rule extracted_deletion_range_well_formed)
qed

section \<open>Deleting in descending order\<close>

text \<open>
  The proof reads a text by its lines. The offset of a position is the start of its line
  plus its column, cut at the length of the line; a deletion within one line changes that
  line only; a deletion from a position of the text leaves the lines before it, and the
  columns up to its start, as they are.
\<close>

lemma lines_of_LF: "lines_of (LF # cs) = [] # lines_of cs"
  by simp

lemma lines_of_other:
  "c \<noteq> LF \<Longrightarrow> lines_of (c # cs) = (c # hd (lines_of cs)) # tl (lines_of cs)"
  using lines_of_not_Nil [of cs] by (cases "lines_of cs") simp_all

lemma line_start_0: "line_start ls 0 = 0"
  by (simp add: line_start_def)

lemma line_start_Suc: "line_start (x # ls) (Suc l) = Suc (length x) + line_start ls l"
  by (simp add: line_start_def)

lemma offset_at_lines:
  "offset_at t l k =
     (if l < length (lines_of t)
      then line_start (lines_of t) l + min k (length (lines_of t ! l))
      else length t)"
proof (induction t l k rule: offset_at.induct)
  case (1 l k)
  show ?case by (simp add: line_start_def)
next
  case (2 c cs)
  show ?case using lines_of_not_Nil [of "c # cs"] by (simp add: line_start_0)
next
  case (3 c cs k)
  show ?case
  proof (cases "c = LF")
    case True
    then show ?thesis by (simp add: line_start_0)
  next
    case False
    obtain x xs where x: "lines_of cs = x # xs"
      using lines_of_not_Nil [of cs] by (cases "lines_of cs") auto
    with False 3 show ?thesis by (simp add: line_start_0)
  qed
next
  case (4 c cs l k)
  show ?case
  proof (cases "c = LF")
    case True
    with 4 show ?thesis by (simp add: line_start_Suc)
  next
    case False
    obtain x xs where x: "lines_of cs = x # xs"
      using lines_of_not_Nil [of cs] by (cases "lines_of cs") auto
    with False 4 show ?thesis by (simp add: line_start_Suc)
  qed
qed

lemma valid_at_lines:
  "valid_at t l k \<longleftrightarrow> l < length (lines_of t) \<and> k \<le> length (lines_of t ! l)"
proof (induction t l k rule: valid_at.induct)
  case (1 l k)
  show ?case by auto
next
  case (2 c cs)
  show ?case using lines_of_not_Nil [of "c # cs"] by simp
next
  case (3 c cs k)
  show ?case
  proof (cases "c = LF")
    case True
    then show ?thesis by simp
  next
    case False
    obtain x xs where x: "lines_of cs = x # xs"
      using lines_of_not_Nil [of cs] by (cases "lines_of cs") auto
    with False 3 show ?thesis by simp
  qed
next
  case (4 c cs l k)
  show ?case
  proof (cases "c = LF")
    case True
    with 4 show ?thesis by simp
  next
    case False
    obtain x xs where x: "lines_of cs = x # xs"
      using lines_of_not_Nil [of cs] by (cases "lines_of cs") auto
    with False 4 show ?thesis by simp
  qed
qed

lemma length_lines:
  "sum_list (map (\<lambda>x. Suc (length x)) (lines_of t)) = Suc (length t)"
proof (induction t)
  case Nil
  show ?case by simp
next
  case (Cons c cs)
  obtain x xs where x: "lines_of cs = x # xs"
    using lines_of_not_Nil [of cs] by (cases "lines_of cs") auto
  with Cons show ?case by (cases "c = LF") simp_all
qed

lemma lines_of_append:
  "lines_of (u @ v) =
     butlast (lines_of u) @ [last (lines_of u) @ hd (lines_of v)] @ tl (lines_of v)"
proof (induction u)
  case Nil
  show ?case using lines_of_not_Nil [of v] by simp
next
  case (Cons c u)
  obtain x xs where x: "lines_of u = x # xs"
    using lines_of_not_Nil [of u] by (cases "lines_of u") auto
  show ?case
  proof (cases "c = LF")
    case True
    with Cons x show ?thesis by simp
  next
    case False
    with Cons x show ?thesis by (cases xs) simp_all
  qed
qed

lemma lines_of_take:
  "l < length (lines_of t) \<Longrightarrow>
     lines_of (take (offset_at t l k) t) = take l (lines_of t) @ [take k (lines_of t ! l)]"
proof (induction t l k rule: offset_at.induct)
  case (1 l k)
  then show ?case by simp
next
  case (2 c cs)
  show ?case by simp
next
  case (3 c cs k)
  show ?case
  proof (cases "c = LF")
    case True
    then show ?thesis by simp
  next
    case False
    obtain x xs where x: "lines_of cs = x # xs"
      using lines_of_not_Nil [of cs] by (cases "lines_of cs") auto
    with False 3 show ?thesis by simp
  qed
next
  case (4 c cs l k)
  show ?case
  proof (cases "c = LF")
    case True
    with 4 show ?thesis by simp
  next
    case False
    obtain x xs where x: "lines_of cs = x # xs"
      using lines_of_not_Nil [of cs] by (cases "lines_of cs") auto
    with False 4 show ?thesis by simp
  qed
qed

lemma lines_of_drop:
  "l < length (lines_of t) \<Longrightarrow>
     lines_of (drop (offset_at t l k) t) = drop k (lines_of t ! l) # drop (Suc l) (lines_of t)"
proof (induction t l k rule: offset_at.induct)
  case (1 l k)
  then show ?case by simp
next
  case (2 c cs)
  obtain x xs where x: "lines_of (c # cs) = x # xs"
    using lines_of_not_Nil [of "c # cs"] by (cases "lines_of (c # cs)") auto
  show ?case unfolding offset_at.simps drop_0 x by simp
next
  case (3 c cs k)
  show ?case
  proof (cases "c = LF")
    case True
    then show ?thesis by simp
  next
    case False
    obtain x xs where x: "lines_of cs = x # xs"
      using lines_of_not_Nil [of cs] by (cases "lines_of cs") auto
    with False 3 show ?thesis by simp
  qed
next
  case (4 c cs l k)
  show ?case
  proof (cases "c = LF")
    case True
    with 4 show ?thesis by simp
  next
    case False
    obtain x xs where x: "lines_of cs = x # xs"
      using lines_of_not_Nil [of cs] by (cases "lines_of cs") auto
    with False 4 show ?thesis by simp
  qed
qed

lemma lines_of_drop_past:
  "length (lines_of t) \<le> l \<Longrightarrow> lines_of (drop (offset_at t l k) t) = [[]]"
  by (simp add: offset_at_lines)

lemma line_start_nth:
  "l < length ls \<Longrightarrow> line_start ls (Suc l) = line_start ls l + Suc (length (ls ! l))"
  by (simp add: line_start_def take_Suc_conv_app_nth)

lemma line_start_step: "line_start ls l \<le> line_start ls (Suc l)"
  by (cases "l < length ls") (simp_all add: line_start_nth, simp add: line_start_def)

lemma line_start_mono: "l \<le> l' \<Longrightarrow> line_start ls l \<le> line_start ls l'"
  by (rule lift_Suc_mono_le) (rule line_start_step)

lemma line_start_less:
  assumes "l < l'" and "l < length ls"
  shows "line_start ls l + Suc (length (ls ! l)) \<le> line_start ls l'"
proof -
  from assms(1) have "line_start ls (Suc l) \<le> line_start ls l'"
    by (intro line_start_mono) simp
  with assms(2) show ?thesis by (simp add: line_start_nth)
qed

lemma line_start_all: "length ls \<le> l \<Longrightarrow> line_start ls l = sum_list (map (\<lambda>x. Suc (length x)) ls)"
  by (simp add: line_start_def)

lemma line_end_le_length:
  assumes "l < length (lines_of t)"
  shows "line_start (lines_of t) l + length (lines_of t ! l) \<le> length t"
proof -
  have "line_start (lines_of t) l + Suc (length (lines_of t ! l)) \<le>
      line_start (lines_of t) (length (lines_of t))"
    using assms by (rule line_start_less [OF _ assms])
  then show ?thesis by (simp add: line_start_all length_lines)
qed

lemma line_start_update_before:
  "l' \<le> l \<Longrightarrow> line_start (ls[l := x]) l' = line_start ls l'"
  by (simp add: line_start_def)

lemma line_start_update_after:
  assumes "l < l'" and "l < length ls"
  shows "line_start (ls[l := x]) l' + length (ls ! l) = line_start ls l' + length x"
proof -
  let ?f = "\<lambda>x. Suc (length x)"
  let ?xs = "map ?f (take l' ls)"
  from assms have l: "l < length ?xs" by simp
  have "line_start (ls[l := x]) l' = sum_list (?xs[l := ?f x])"
    by (simp add: line_start_def take_update_swap map_update)
  also have "\<dots> = sum_list ?xs + ?f x - ?xs ! l"
    using l by (rule sum_list_update)
  finally have e: "line_start (ls[l := x]) l' = sum_list ?xs + ?f x - ?xs ! l" .
  have "?xs ! l \<in> set ?xs" using l by (rule nth_mem)
  then have "?xs ! l \<le> sum_list ?xs" by (simp add: member_le_sum_list)
  moreover have "?xs ! l = Suc (length (ls ! l))" using assms by simp
  ultimately show ?thesis using e by (simp add: line_start_def)
qed

lemma offsetAt_lines:
  "offsetAt t p =
     (if line p < lineCount t
      then line_start (lines_of t) (line p) + min (character p) (length (lines_of t ! line p))
      else length t)"
  by (simp add: offsetAt_def lineCount_def offset_at_lines)

lemma valid_position_lines:
  "valid_position t p \<longleftrightarrow>
     line p < lineCount t \<and> character p \<le> length (lines_of t ! line p)"
  by (simp add: valid_position_def lineCount_def valid_at_lines)

lemma offset_at_le_length: "offset_at t l k \<le> length t"
  by (induction t l k rule: offset_at.induct) auto

lemma offsetAt_le_length: "offsetAt t p \<le> length t"
  by (simp add: offsetAt_def offset_at_le_length)

text \<open>A position of the text lies at or before every position that follows it.\<close>

lemma offsetAt_mono_valid:
  assumes "valid_position t p" and "position_le p q"
  shows "offsetAt t p \<le> offsetAt t q"
proof (cases "line q < lineCount t")
  case False
  then show ?thesis by (simp add: offsetAt_lines [of t q] offsetAt_le_length)
next
  case True
  from assms(1) have p: "line p < lineCount t" "character p \<le> length (lines_of t ! line p)"
    by (simp_all add: valid_position_lines)
  show ?thesis
  proof (cases "line p < line q")
    case True
    with p have "line_start (lines_of t) (line p) + Suc (length (lines_of t ! line p))
        \<le> line_start (lines_of t) (line q)"
      by (intro line_start_less) (simp_all add: lineCount_def)
    with p \<open>line q < lineCount t\<close> show ?thesis by (simp add: offsetAt_lines)
  next
    case False
    with assms(2) have "line p = line q" "character p \<le> character q"
      by (auto simp: position_le_def)
    with p show ?thesis by (simp add: offsetAt_lines)
  qed
qed

text \<open>The lines of a text after a deletion that starts at a position of the text.\<close>

lemma lines_after_delete:
  assumes "line s < lineCount t"
  shows "lines_of (take (offsetAt t s) t @ X) =
      take (line s) (lines_of t)
        @ [take (character s) (lines_of t ! line s) @ hd (lines_of X)] @ tl (lines_of X)"
  using assms by (simp add: lines_of_append lines_of_take offsetAt_def lineCount_def)

lemma lines_after_delete_in_line:
  assumes "line s < lineCount t" and "line e = line s"
  shows "lines_of (take (offsetAt t s) t @ drop (offsetAt t e) t) =
      (lines_of t)[line s := take (character s) (lines_of t ! line s)
                              @ drop (character e) (lines_of t ! line s)]"
proof -
  from assms have "lines_of (drop (offsetAt t e) t) =
      drop (character e) (lines_of t ! line s) # drop (Suc (line s)) (lines_of t)"
    by (simp add: offsetAt_def lineCount_def lines_of_drop)
  with assms(1) show ?thesis
    by (simp add: lines_after_delete upd_conv_take_nth_drop lineCount_def)
qed

text \<open>Positions at or before the start of a deletion keep their offsets.\<close>

lemma stable_before:
  assumes vs: "valid_position t s" and le: "position_le p s"
  shows "offsetAt (take (offsetAt t s) t @ X) p = offsetAt t p"
    and "valid_position t p \<Longrightarrow> valid_position (take (offsetAt t s) t @ X) p"
    and "inside_line t p \<Longrightarrow> position_lt p s \<Longrightarrow> inside_line (take (offsetAt t s) t @ X) p"
    and "\<not> inside_line t p \<Longrightarrow> line p < line s \<Longrightarrow>
           \<not> inside_line (take (offsetAt t s) t @ X) p"
proof -
  let ?t1 = "take (offsetAt t s) t @ X"
  from vs have s: "line s < length (lines_of t)" "character s \<le> length (lines_of t ! line s)"
    by (simp_all add: valid_position_lines lineCount_def)
  have ls1: "lines_of ?t1 = take (line s) (lines_of t)
        @ [take (character s) (lines_of t ! line s) @ hd (lines_of X)] @ tl (lines_of X)"
    using s by (intro lines_after_delete) (simp add: lineCount_def)
  have n1: "line s < lineCount ?t1"
    using s by (simp add: lineCount_def ls1)
  have before: "lines_of ?t1 ! l = lines_of t ! l" if "l < line s" for l
    using that s by (simp add: ls1 nth_append)
  have at: "length (lines_of ?t1 ! line s) \<ge> character s"
    using s by (simp add: ls1 nth_append)
  have st: "line_start (lines_of ?t1) l = line_start (lines_of t) l" if "l \<le> line s" for l
    using that s by (simp add: ls1 line_start_def)
  from le consider (a) "line p < line s" | (b) "line p = line s" "character p \<le> character s"
    by (auto simp: position_le_def)
  then show "offsetAt ?t1 p = offsetAt t p"
  proof cases
    case a
    with n1 s before [of "line p"] st [of "line p"] show ?thesis
      by (simp add: offsetAt_lines [of _ p] lineCount_def)
  next
    case b
    with n1 s at st [of "line p"] show ?thesis
      by (simp add: offsetAt_lines [of _ p] lineCount_def)
  qed
  show "valid_position ?t1 p" if "valid_position t p"
    using le that n1 s at before [of "line p"]
    by (auto simp: valid_position_lines position_le_def lineCount_def)
  show "inside_line ?t1 p" if "inside_line t p" "position_lt p s"
    using that n1 s at before [of "line p"]
    by (auto simp: inside_line_def position_lt_def lineCount_def)
  show "\<not> inside_line ?t1 p" if "\<not> inside_line t p" "line p < line s"
    using that n1 s before [of "line p"]
    by (auto simp: inside_line_def lineCount_def)
qed

text \<open>A deletion within one line: what it does to the positions behind its start.\<close>

lemma stable_in_line:
  fixes t :: string and s e p :: position
  defines "t1 \<equiv> take (offsetAt t s) t @ drop (offsetAt t e) t"
  assumes vs: "valid_position t s" and el: "line e = line s"
    and ce: "character s \<le> character e"
  shows "lineCount t1 = lineCount t"
    and "line s < line p \<Longrightarrow>
           offsetAt t1 p + (offsetAt t e - offsetAt t s) = offsetAt t p \<and>
           offsetAt t e \<le> offsetAt t p"
    and "line p = line s \<Longrightarrow> \<not> inside_line t p \<Longrightarrow>
           offsetAt t1 p + (offsetAt t e - offsetAt t s) = offsetAt t p \<and>
           offsetAt t e \<le> offsetAt t p"
    and "\<not> inside_line t p \<Longrightarrow> \<not> inside_line t1 p"
proof -
  let ?ls = "lines_of t"
  let ?L = "?ls ! line s"
  let ?L' = "take (character s) ?L @ drop (character e) ?L"
  from vs have s: "line s < length ?ls" "character s \<le> length ?L"
    by (simp_all add: valid_position_lines lineCount_def)
  have ls1: "lines_of t1 = ?ls[line s := ?L']"
    unfolding t1_def using s el by (intro lines_after_delete_in_line) (simp_all add: lineCount_def)
  have os: "offsetAt t s = line_start ?ls (line s) + character s"
    using s by (simp add: offsetAt_lines lineCount_def)
  have oe: "offsetAt t e = line_start ?ls (line s) + min (character e) (length ?L)"
    using s el by (simp add: offsetAt_lines lineCount_def)
  have d: "offsetAt t e - offsetAt t s = min (character e) (length ?L) - character s"
    by (simp add: os oe)
  have lL': "length ?L' + (min (character e) (length ?L) - character s) = length ?L"
    using s ce by (simp add: min_def)
  have le: "offsetAt t s \<le> offsetAt t e"
    using s ce by (simp add: os oe)
  have el': "offsetAt t e \<le> length t"
    by (rule offsetAt_le_length)
  have len1: "length t1 + (offsetAt t e - offsetAt t s) = length t"
    unfolding t1_def using le el' by simp
  show n: "lineCount t1 = lineCount t"
    by (simp add: lineCount_def ls1)
  show "offsetAt t1 p + (offsetAt t e - offsetAt t s) = offsetAt t p \<and>
      offsetAt t e \<le> offsetAt t p" if p: "line s < line p"
  proof (cases "line p < lineCount t")
    case False
    with n len1 el' show ?thesis by (simp add: offsetAt_lines [of _ p])
  next
    case True
    have "line_start (?ls[line s := ?L']) (line p) + length ?L
        = line_start ?ls (line p) + length ?L'"
      using p s(1) by (rule line_start_update_after)
    with lL' have 1: "line_start (lines_of t1) (line p)
        + (min (character e) (length ?L) - character s) = line_start ?ls (line p)"
      by (simp add: ls1)
    have 2: "lines_of t1 ! line p = ?ls ! line p"
      using p by (simp add: ls1)
    have 3: "line_start ?ls (line s) + Suc (length ?L) \<le> line_start ?ls (line p)"
      using p s(1) by (rule line_start_less)
    have A: "offsetAt t1 p =
        line_start (lines_of t1) (line p) + min (character p) (length (?ls ! line p))"
      using True n 2 by (simp add: offsetAt_lines [of _ p])
    have B: "offsetAt t p = line_start ?ls (line p) + min (character p) (length (?ls ! line p))"
      using True by (simp add: offsetAt_lines [of _ p])
    have C: "offsetAt t e \<le> line_start ?ls (line s) + length ?L"
      by (simp add: oe)
    from A B C 1 3 show ?thesis unfolding d by linarith
  qed
  have same: "line_start (lines_of t1) (line s) = line_start ?ls (line s)"
    by (simp add: ls1 line_start_update_before)
  have L1: "lines_of t1 ! line s = ?L'"
    using s by (simp add: ls1)
  show "offsetAt t1 p + (offsetAt t e - offsetAt t s) = offsetAt t p \<and>
      offsetAt t e \<le> offsetAt t p" if p: "line p = line s" "\<not> inside_line t p"
  proof -
    from p s have c: "length ?L \<le> character p" by (simp add: inside_line_def lineCount_def)
    with lL' have c': "length ?L' \<le> character p" by simp
    have A: "offsetAt t1 p = line_start ?ls (line s) + length ?L'"
      using s p(1) n c' same L1 by (simp add: offsetAt_lines [of _ p] lineCount_def min_absorb2)
    have B: "offsetAt t p = line_start ?ls (line s) + length ?L"
      using s p(1) c by (simp add: offsetAt_lines [of _ p] lineCount_def min_absorb2)
    have C: "offsetAt t e \<le> line_start ?ls (line s) + length ?L"
      by (simp add: oe)
    from A B C lL' show ?thesis unfolding d by linarith
  qed
  show "\<not> inside_line t1 p" if p: "\<not> inside_line t p"
  proof (cases "line p = line s")
    case True
    with p s have "length ?L \<le> character p" by (simp add: inside_line_def lineCount_def)
    with lL' have "length ?L' \<le> character p" by simp
    with True s n L1 show ?thesis by (simp add: inside_line_def lineCount_def)
  next
    case False
    with p n show ?thesis by (simp add: inside_line_def ls1)
  qed
qed

text \<open>
  The end of the text: a position behind the last line, or on the last line at its end
  or behind it. A position that is read as the end of the text is read so after any
  deletion.
\<close>

lemma last_lines_of: "Suc l = lineCount t \<Longrightarrow> last (lines_of t) = lines_of t ! l"
proof -
  assume "Suc l = lineCount t"
  then have "length (lines_of t) - 1 = l" by (simp add: lineCount_def)
  with lines_of_not_Nil [of t] show ?thesis by (simp add: last_conv_nth)
qed

lemma ends_text_iff:
  "ends_text t p \<longleftrightarrow>
     lineCount t \<le> line p \<or>
     (Suc (line p) = lineCount t \<and> length (last (lines_of t)) \<le> character p)"
proof (cases "line p < lineCount t")
  case False
  then show ?thesis by (simp add: ends_text_def offsetAt_lines)
next
  case True
  let ?ls = "lines_of t"
  have o: "offsetAt t p = line_start ?ls (line p) + min (character p) (length (?ls ! line p))"
    using True by (simp add: offsetAt_lines)
  show ?thesis
  proof (cases "Suc (line p) = lineCount t")
    case True
    then have l: "line p < length ?ls" "Suc (line p) = length ?ls"
      by (simp_all add: lineCount_def)
    have "line_start ?ls (Suc (line p)) = Suc (length t)"
      using l by (simp add: line_start_all length_lines)
    with l(1) have "line_start ?ls (line p) + length (?ls ! line p) = length t"
      by (simp add: line_start_nth)
    moreover have "last ?ls = ?ls ! line p"
      using True by (rule last_lines_of)
    ultimately show ?thesis using True o by (auto simp: ends_text_def min_def)
  next
    case False
    with True have lt: "Suc (line p) < length ?ls" "line p < length ?ls"
      by (simp_all add: lineCount_def)
    have "line_start ?ls (Suc (line p)) + length (?ls ! Suc (line p)) \<le> length t"
      using lt(1) by (rule line_end_le_length)
    with lt(2) have "line_start ?ls (line p) + length (?ls ! line p) < length t"
      by (simp add: line_start_nth)
    with o have "offsetAt t p < length t" by simp
    with True False show ?thesis by (simp add: ends_text_def)
  qed
qed

lemma ends_text_not_inside: "ends_text t p \<Longrightarrow> \<not> inside_line t p"
  by (auto simp: ends_text_iff inside_line_def last_lines_of)

lemma lineCount_append: "lineCount (u @ v) + 1 = lineCount u + lineCount v"
  using lines_of_not_Nil [of u] lines_of_not_Nil [of v]
  by (simp add: lineCount_def lines_of_append)

lemma last_line_append:
  "length (last (lines_of (u @ v))) =
     (if lineCount v = 1 then length (last (lines_of u)) + length (last (lines_of v))
      else length (last (lines_of v)))"
proof -
  obtain x xs where v: "lines_of v = x # xs"
    using lines_of_not_Nil [of v] by (cases "lines_of v") auto
  show ?thesis
    by (cases xs) (simp_all add: lines_of_append v lineCount_def)
qed

lemma ends_text_after_delete:
  assumes e: "ends_text t p" and ab: "a \<le> b"
  shows "ends_text (take a t @ drop b t) p"
proof -
  define u where "u = take a t"
  define m where "m = take (b - a) (drop a t)"
  define v where "v = drop b t"
  have "drop a t = m @ v"
    using ab unfolding m_def v_def
    by (metis add.commute append_take_drop_id drop_drop le_add_diff_inverse)
  then have t: "t = u @ m @ v"
    unfolding u_def by (metis append_take_drop_id)
  have cm: "1 \<le> lineCount m" using lines_of_not_Nil [of m] by (cases "lines_of m") (simp_all add: lineCount_def)
  have cv: "1 \<le> lineCount v" using lines_of_not_Nil [of v] by (cases "lines_of v") (simp_all add: lineCount_def)
  have c1: "lineCount (m @ v) + 1 = lineCount m + lineCount v" by (rule lineCount_append)
  have c2: "lineCount t + 1 = lineCount u + lineCount (m @ v)" unfolding t by (rule lineCount_append)
  have c3: "lineCount (u @ v) + 1 = lineCount u + lineCount v" by (rule lineCount_append)
  from e consider (behind) "lineCount t \<le> line p"
    | (last) "Suc (line p) = lineCount t" "length (last (lines_of t)) \<le> character p"
    by (auto simp: ends_text_iff)
  then have "ends_text (u @ v) p"
  proof cases
    case behind
    with c1 c2 c3 cm show ?thesis by (simp add: ends_text_iff)
  next
    case last
    show ?thesis
    proof (cases "lineCount m = 1")
      case False
      with cm c1 c2 c3 last(1) have "lineCount (u @ v) \<le> line p" by simp
      then show ?thesis by (simp add: ends_text_iff)
    next
      case True
      with c1 c2 c3 last(1) have n: "Suc (line p) = lineCount (u @ v)" and mv: "lineCount (m @ v) = lineCount v"
        by simp_all
      have "length (last (lines_of (u @ v))) \<le> length (last (lines_of t))"
        unfolding t using True mv
        by (simp add: last_line_append [of u "m @ v"] last_line_append [of u v] last_line_append [of m v])
      with last(2) n show ?thesis by (simp add: ends_text_iff)
    qed
  qed
  then show ?thesis by (simp add: u_def v_def)
qed

text \<open>
  A deletion that runs to the end of the text: every position behind its start is read as
  the end of the text that is left.
\<close>

lemma stable_to_text_end:
  assumes vs: "valid_position t s" and np: "\<not> position_le p s"
  shows "ends_text (take (offsetAt t s) t) p"
proof -
  from vs have s: "line s < length (lines_of t)" "character s \<le> length (lines_of t ! line s)"
    by (simp_all add: valid_position_lines lineCount_def)
  have ls1: "lines_of (take (offsetAt t s) t)
      = take (line s) (lines_of t) @ [take (character s) (lines_of t ! line s)]"
    using s by (simp add: offsetAt_def lines_of_take)
  from np have "line s < line p \<or> (line p = line s \<and> character s < character p)"
    unfolding position_le_def by arith
  with s show ?thesis
    by (auto simp: ends_text_iff lineCount_def ls1)
qed

text \<open>
  A deletion that runs to the end of a line: a position on the line of its start, behind
  the start, is read as the end of what is left of that line.
\<close>

lemma stable_to_line_end:
  fixes t :: string and s e p :: position
  defines "t1 \<equiv> take (offsetAt t s) t @ drop (offsetAt t e) t"
  assumes vs: "valid_position t s" and se: "position_le s e"
    and le: "line e < lineCount t" and ne: "\<not> inside_line t e"
    and lp: "line p = line s" and cp: "character s < character p"
  shows "offsetAt t1 p = offsetAt t s"
    and "offsetAt t p \<le> offsetAt t e"
    and "\<not> inside_line t1 p"
proof -
  let ?ls = "lines_of t"
  from vs have s: "line s < length ?ls" "character s \<le> length (?ls ! line s)"
    by (simp_all add: valid_position_lines lineCount_def)
  from le ne have c: "length (?ls ! line e) \<le> character e"
    by (simp add: inside_line_def)
  from le have "lines_of (drop (offsetAt t e) t)
      = drop (character e) (?ls ! line e) # drop (Suc (line e)) ?ls"
    by (simp add: offsetAt_def lineCount_def lines_of_drop)
  with c have hd: "hd (lines_of (drop (offsetAt t e) t)) = []" by simp
  have ls1: "lines_of t1 = take (line s) ?ls
      @ [take (character s) (?ls ! line s)] @ tl (lines_of (drop (offsetAt t e) t))"
    unfolding t1_def using s hd
    by (simp add: lines_after_delete [of s t "drop (offsetAt t e) t"] lineCount_def)
  have n1: "line s < lineCount t1" using s by (simp add: lineCount_def ls1)
  have L1: "lines_of t1 ! line s = take (character s) (?ls ! line s)"
    using s by (simp add: ls1 nth_append)
  have st: "line_start (lines_of t1) (line s) = line_start ?ls (line s)"
    using s by (simp add: ls1 line_start_def)
  have os: "offsetAt t s = line_start ?ls (line s) + character s"
    using s by (simp add: offsetAt_lines lineCount_def)
  show "offsetAt t1 p = offsetAt t s"
    using n1 L1 st s lp cp by (simp add: offsetAt_lines [of _ p] os min_absorb2)
  show "\<not> inside_line t1 p"
    using n1 L1 s lp cp by (simp add: inside_line_def)
  let ?q = "\<lparr>line = line s, character = length (?ls ! line s)\<rparr>"
  have "position_le ?q e"
    using se c by (auto simp: position_le_def)
  then have "offsetAt t ?q \<le> offsetAt t e"
    using s by (intro offsetAt_mono_valid) (simp_all add: valid_position_lines lineCount_def)
  moreover have "offsetAt t p \<le> offsetAt t ?q"
    using s lp by (simp add: offsetAt_lines lineCount_def)
  ultimately show "offsetAt t p \<le> offsetAt t e" by simp
qed

lemma offsetAt_mono: "position_le p q \<Longrightarrow> offsetAt t p \<le> offsetAt t q"
proof (cases "line p < lineCount t")
  case False
  assume "position_le p q"
  with False have "\<not> line q < lineCount t" by (auto simp: position_le_def)
  with False show ?thesis by (simp add: offsetAt_lines)
next
  case True
  assume le: "position_le p q"
  let ?p' = "\<lparr>line = line p, character = min (character p) (length (lines_of t ! line p))\<rparr>"
  have v: "valid_position t ?p'" using True by (simp add: valid_position_lines)
  have e: "offsetAt t ?p' = offsetAt t p" using True by (simp add: offsetAt_lines)
  have "position_le ?p' q" using le by (auto simp: position_le_def)
  with v have "offsetAt t ?p' \<le> offsetAt t q" by (rule offsetAt_mono_valid)
  with e show ?thesis by simp
qed

lemma position_le_trans: "position_le p q \<Longrightarrow> position_le q r \<Longrightarrow> position_le p r"
  by (auto simp: position_le_def)

lemma position_lt_le: "position_lt p q \<Longrightarrow> position_le p q"
  by (auto simp: position_lt_def position_le_def)

lemma keep_outside_append:
  "keep_outside i ps (u @ v) = keep_outside i ps u @ keep_outside (i + length u) ps v"
  by (induction u arbitrary: i) auto

lemma keep_outside_none:
  "fst ab \<le> i \<Longrightarrow> i + length v \<le> snd ab \<Longrightarrow> keep_outside i (ab # ps) v = []"
  by (induction v arbitrary: i) auto

lemma keep_outside_empty: "keep_outside i [] v = v"
  by (induction v arbitrary: i) auto

lemma keep_outside_cong:
  assumes "\<And>k. k < length s \<Longrightarrow>
      list_ex (\<lambda>ab. fst ab \<le> i + k \<and> i + k < snd ab) ps =
      list_ex (\<lambda>ab. fst ab \<le> j + k \<and> j + k < snd ab) qs"
  shows "keep_outside i ps s = keep_outside j qs s"
  using assms
proof (induction s arbitrary: i j)
  case Nil
  show ?case by simp
next
  case (Cons c s)
  from Cons.prems [of 0] have h: "list_ex (\<lambda>ab. fst ab \<le> i \<and> i < snd ab) ps =
      list_ex (\<lambda>ab. fst ab \<le> j \<and> j < snd ab) qs" by simp
  have "keep_outside (Suc i) ps s = keep_outside (Suc j) qs s"
  proof (rule Cons.IH)
    fix k assume "k < length s"
    with Cons.prems [of "Suc k"] show "list_ex (\<lambda>ab. fst ab \<le> Suc i + k \<and> Suc i + k < snd ab) ps =
      list_ex (\<lambda>ab. fst ab \<le> Suc j + k \<and> Suc j + k < snd ab) qs" by simp
  qed
  with h show ?case by simp
qed

text \<open>
  Dropping the characters of a set of ranges from a text, after one of the ranges has
  been cut out: the other ranges start before the cut, and their ends move with it.
\<close>

lemma keep_outside_after_delete:
  assumes ab: "a \<le> b" "b \<le> length t" and ps: "\<And>x. x \<in> set ps \<Longrightarrow> fst x \<le> a"
  shows "keep_outside 0 (map (\<lambda>x. (fst x, moved_end a b (snd x))) ps) (take a t @ drop b t)
       = keep_outside 0 ((a, b) # ps) t"
proof -
  let ?ps1 = "map (\<lambda>x. (fst x, moved_end a b (snd x))) ps"
  define u where "u = take a t"
  define m where "m = take (b - a) (drop a t)"
  define v where "v = drop b t"
  have t: "t = u @ m @ v"
    using ab unfolding u_def m_def v_def
    by (metis add_diff_inverse_nat append_take_drop_id drop_drop le_antisym linorder_not_le add.commute)
  have lu: "length u = a" and lm: "length m = b - a"
    using ab by (auto simp: u_def m_def)
  have 1: "keep_outside 0 ?ps1 u = keep_outside 0 ((a, b) # ps) u"
  proof (rule keep_outside_cong)
    fix k assume "k < length u"
    with lu have k: "k < a" by simp
    have "(\<exists>x \<in> set ps. fst x \<le> k \<and> k < moved_end a b (snd x)) \<longleftrightarrow>
        (\<exists>x \<in> set ps. fst x \<le> k \<and> k < snd x)"
    proof (rule bex_cong [OF refl])
      fix x assume "x \<in> set ps"
      from k ab show "(fst x \<le> k \<and> k < moved_end a b (snd x)) = (fst x \<le> k \<and> k < snd x)"
        by (auto simp: moved_end_def)
    qed
    with k show "list_ex (\<lambda>ab. fst ab \<le> 0 + k \<and> 0 + k < snd ab) ?ps1 =
        list_ex (\<lambda>ab. fst ab \<le> 0 + k \<and> 0 + k < snd ab) ((a, b) # ps)"
      by (simp add: list_ex_iff)
  qed
  have 2: "keep_outside a ((a, b) # ps) m = []"
    by (rule keep_outside_none) (use ab lm in auto)
  have 3: "keep_outside a ?ps1 v = keep_outside b ((a, b) # ps) v"
  proof (rule keep_outside_cong)
    fix k
    have "(\<exists>x \<in> set ps. fst x \<le> a + k \<and> a + k < moved_end a b (snd x)) \<longleftrightarrow>
        (\<exists>x \<in> set ps. fst x \<le> b + k \<and> b + k < snd x)"
    proof (rule bex_cong [OF refl])
      fix x assume "x \<in> set ps"
      then have "fst x \<le> a" by (rule ps)
      with ab show "(fst x \<le> a + k \<and> a + k < moved_end a b (snd x)) =
          (fst x \<le> b + k \<and> b + k < snd x)"
        by (auto simp: moved_end_def)
    qed
    then show "list_ex (\<lambda>ab. fst ab \<le> a + k \<and> a + k < snd ab) ?ps1 =
        list_ex (\<lambda>ab. fst ab \<le> b + k \<and> b + k < snd ab) ((a, b) # ps)"
      by (simp add: list_ex_iff)
  qed
  have "keep_outside 0 ?ps1 (take a t @ drop b t) = keep_outside 0 ?ps1 u @ keep_outside a ?ps1 v"
    using ab by (simp add: keep_outside_append u_def v_def min_absorb2)
  moreover have "keep_outside 0 ((a, b) # ps) t =
      keep_outside 0 ((a, b) # ps) u @ keep_outside a ((a, b) # ps) m
        @ keep_outside b ((a, b) # ps) v"
    using ab by (subst t) (simp add: keep_outside_append lu lm)
  ultimately show ?thesis using 1 2 3 by simp
qed

text \<open>One deletion of a safe plan, and what it leaves of the deletions behind it.\<close>

lemma inside_line_valid: "inside_line t p \<Longrightarrow> valid_position t p"
  by (simp add: inside_line_def valid_position_lines)

lemma position_le_total: "\<not> position_le p q \<Longrightarrow> position_le q p"
  by (auto simp: position_le_def)

lemma range_in_text_offsets:
  assumes "range_in_text t r"
  shows "range_offsets t r = (offsetAt t (range_start r), offsetAt t (range_end r))"
    and "offsetAt t (range_start r) \<le> offsetAt t (range_end r)"
proof -
  from assms have "position_le (range_start r) (range_end r)"
    by (simp add: range_in_text_def position_lt_le)
  then show "offsetAt t (range_start r) \<le> offsetAt t (range_end r)" by (rule offsetAt_mono)
  then show "range_offsets t r = (offsetAt t (range_start r), offsetAt t (range_end r))"
    by (simp add: range_offsets_def)
qed

lemma safe_pair_start:
  assumes "safe_pair t r r'" and "range_in_text t r'"
  shows "position_lt (range_start r') (range_start r)"
  using assms unfolding safe_pair_def range_in_text_def
  by (auto simp: position_le_def position_lt_def)

lemma safe_step:
  assumes rt: "range_in_text t r" and rt': "range_in_text t r'" and sp: "safe_pair t r r'"
  defines "a \<equiv> offsetAt t (range_start r)" and "b \<equiv> offsetAt t (range_end r)"
  defines "t1 \<equiv> take a t @ drop b t"
  shows "range_in_text t1 r'"
    and "range_offsets t1 r' =
           (fst (range_offsets t r'), moved_end a b (snd (range_offsets t r')))"
    and "fst (range_offsets t r') \<le> a"
    and "\<not> inside_line t (range_end r') \<Longrightarrow> \<not> inside_line t1 (range_end r')"
    and "ends_text t (range_end r') \<Longrightarrow> ends_text t1 (range_end r')"
proof -
  let ?s = "range_start r" and ?e = "range_end r"
  let ?s' = "range_start r'" and ?e' = "range_end r'"
  from rt have ins: "inside_line t ?s" and se: "position_le ?s ?e"
    by (simp_all add: range_in_text_def position_lt_le)
  from ins have vs: "valid_position t ?s" by (rule inside_line_valid)
  from rt' have ins': "inside_line t ?s'" and se': "position_lt ?s' ?e'"
    by (simp_all add: range_in_text_def)
  have ab: "a \<le> b" unfolding a_def b_def using se by (rule offsetAt_mono)
  have bl: "b \<le> length t" unfolding b_def by (rule offsetAt_le_length)
  have len1: "length t1 + (b - a) = length t"
    unfolding t1_def using ab bl by simp
  have lt: "position_lt ?s' ?s" using sp rt' by (rule safe_pair_start)
  then have le: "position_le ?s' ?s" by (rule position_lt_le)
  have s1: "offsetAt t1 ?s' = offsetAt t ?s'"
    unfolding t1_def a_def using vs le by (rule stable_before(1))
  have "inside_line t1 ?s'"
    unfolding t1_def a_def using stable_before(3) [OF vs le ins' lt] .
  with se' show rt1: "range_in_text t1 r'"
    by (simp add: range_in_text_def)
  show fa: "fst (range_offsets t r') \<le> a"
    unfolding range_in_text_offsets(1) [OF rt'] a_def using le by (simp add: offsetAt_mono)
  show et: "ends_text t1 ?e'" if "ends_text t ?e'"
    unfolding t1_def using that ab by (rule ends_text_after_delete)
  have inl: "line ?e = line ?s" "character ?s \<le> character ?e" if "one_line r"
    using that se by (auto simp: one_line_def position_le_def)
  have behind: "offsetAt t1 ?e' = moved_end a b (offsetAt t ?e') \<and>
      (\<not> inside_line t ?e' \<longrightarrow> \<not> inside_line t1 ?e')" if np: "\<not> position_le ?e' ?s"
  proof -
    from np have ge: "position_le ?s ?e'" by (rule position_le_total)
    then have ao: "a \<le> offsetAt t ?e'" unfolding a_def by (rule offsetAt_mono)
    have ol: "offsetAt t ?e' \<le> length t" by (rule offsetAt_le_length)
    from np have pos: "line ?s < line ?e' \<or> (line ?e' = line ?s \<and> character ?s < character ?e')"
      unfolding position_le_def by arith
    from sp np consider (a) "ends_text t ?e'"
      | (b) "ends_text t ?e"
      | (c) "\<not> inside_line t ?e" "line ?e' = line ?s" "line ?e < lineCount t"
      | (d) "one_line r" "line ?s < line ?e' \<or> \<not> inside_line t ?e'"
      unfolding safe_pair_def
      by (cases "line ?e < lineCount t") (auto simp: ends_text_iff)
    then show ?thesis
    proof cases
      case a
      from et [OF a] have "offsetAt t1 ?e' = length t1" by (simp add: ends_text_def)
      moreover from a have "offsetAt t ?e' = length t" by (simp add: ends_text_def)
      moreover from et [OF a] have "\<not> inside_line t1 ?e'" by (rule ends_text_not_inside)
      ultimately show ?thesis using ab bl len1 by (auto simp: moved_end_def)
    next
      case b
      then have bb: "b = length t" by (simp add: ends_text_def b_def)
      then have t1: "t1 = take (offsetAt t ?s) t" by (simp add: t1_def a_def)
      have e1: "ends_text t1 ?e'"
        unfolding t1 using vs np by (rule stable_to_text_end)
      then have "offsetAt t1 ?e' = length t1" by (simp add: ends_text_def)
      moreover from e1 have "\<not> inside_line t1 ?e'" by (rule ends_text_not_inside)
      ultimately show ?thesis using ab bl len1 bb ao ol by (auto simp: moved_end_def)
    next
      case c
      from pos c(2) have cp: "character ?s < character ?e'" by simp
      note v = stable_to_line_end [OF vs se c(3) c(1) c(2) cp, folded a_def b_def, folded t1_def]
      from v(1) v(2) v(3) ao show ?thesis by (auto simp: moved_end_def)
    next
      case d
      note sl = stable_in_line(2,3,4) [OF vs inl [OF d(1)], of ?e', folded a_def b_def,
        folded t1_def]
      from pos show ?thesis
      proof
        assume later: "line ?s < line ?e'"
        from sl(1) [OF later] sl(3) ab show ?thesis by (auto simp: moved_end_def)
      next
        assume same: "line ?e' = line ?s \<and> character ?s < character ?e'"
        with d(2) have n: "\<not> inside_line t ?e'" by simp
        from same sl(2) [OF _ n] sl(3) ab show ?thesis by (auto simp: moved_end_def)
      qed
    qed
  qed
  have front: "offsetAt t1 ?e' = moved_end a b (offsetAt t ?e') \<and>
      (\<not> inside_line t ?e' \<longrightarrow> \<not> inside_line t1 ?e')" if p: "position_le ?e' ?s"
  proof -
    from p have "offsetAt t ?e' \<le> a" unfolding a_def by (rule offsetAt_mono)
    moreover have "offsetAt t1 ?e' = offsetAt t ?e'"
      unfolding t1_def a_def using vs p by (rule stable_before(1))
    moreover have "\<not> inside_line t1 ?e'" if n: "\<not> inside_line t ?e'"
    proof -
      have "line ?e' < line ?s"
      proof (rule ccontr)
        assume "\<not> line ?e' < line ?s"
        with p have "line ?e' = line ?s" "character ?e' \<le> character ?s"
          by (auto simp: position_le_def)
        with n ins show False by (auto simp: inside_line_def)
      qed
      with stable_before(4) [OF vs p n] show ?thesis by (simp add: t1_def a_def)
    qed
    ultimately show ?thesis by (simp add: moved_end_def)
  qed
  from behind front have e1: "offsetAt t1 ?e' = moved_end a b (offsetAt t ?e')"
    and n1: "\<not> inside_line t ?e' \<Longrightarrow> \<not> inside_line t1 ?e'"
    by blast+
  from range_in_text_offsets(1) [OF rt1] range_in_text_offsets(1) [OF rt'] s1 e1
  show "range_offsets t1 r' =
      (fst (range_offsets t r'), moved_end a b (snd (range_offsets t r')))"
    by simp
  show "\<not> inside_line t1 ?e'" if "\<not> inside_line t ?e'"
    using that by (rule n1)
qed

lemma safe_pair_after:
  assumes rt: "range_in_text t r" and rt': "range_in_text t r'" and rt'': "range_in_text t r''"
    and sp': "safe_pair t r r'" and sp'': "safe_pair t r r''" and sp: "safe_pair t r' r''"
  shows "safe_pair (take (offsetAt t (range_start r)) t @ drop (offsetAt t (range_end r)) t) r' r''"
  using sp safe_step(4,5) [OF rt rt' sp'] safe_step(4,5) [OF rt rt'' sp'']
  unfolding safe_pair_def by auto

text \<open>
  A safe plan applied one by one removes exactly the characters of its ranges.
\<close>

lemma safe_plan_sequential:
  "safe_plan t rs \<Longrightarrow> foldl delete_range t rs = keep_outside 0 (map (range_offsets t) rs) t"
proof (induction rs arbitrary: t)
  case Nil
  show ?case by (simp add: keep_outside_empty)
next
  case (Cons r rs)
  from Cons.prems have rt: "range_in_text t r"
    and rts: "\<And>r'. r' \<in> set rs \<Longrightarrow> range_in_text t r'"
    and sps: "\<And>r'. r' \<in> set rs \<Longrightarrow> safe_pair t r r'"
    and sw: "sorted_wrt (safe_pair t) rs"
    by (auto simp: safe_plan_def list_all_iff)
  define a where "a = offsetAt t (range_start r)"
  define b where "b = offsetAt t (range_end r)"
  define t1 where "t1 = take a t @ drop b t"
  note o = range_in_text_offsets [OF rt, folded a_def b_def]
  have d: "delete_range t r = t1"
    by (simp add: delete_range_def delete_offsets_def o(1) t1_def)
  have b: "b \<le> length t" unfolding b_def by (rule offsetAt_le_length)
  note step = safe_step [OF rt rts sps, folded a_def b_def, folded t1_def]
  have "sorted_wrt (safe_pair t1) rs"
    using sw
  proof (rule sorted_wrt_mono_rel [rotated])
    fix r' r'' assume "r' \<in> set rs" "r'' \<in> set rs" "safe_pair t r' r''"
    then show "safe_pair t1 r' r''"
      using safe_pair_after [OF rt rts rts sps sps, of r' r'']
      by (simp add: t1_def a_def b_def)
  qed
  moreover have "list_all (range_in_text t1) rs"
    using step(1) by (simp add: list_all_iff)
  ultimately have sp1: "safe_plan t1 rs" by (simp add: safe_plan_def)
  have m: "map (range_offsets t1) rs =
      map (\<lambda>x. (fst x, moved_end a b (snd x))) (map (range_offsets t) rs)"
    using step(2) by simp
  have X: "keep_outside 0 (map (\<lambda>x. (fst x, moved_end a b (snd x))) (map (range_offsets t) rs)) t1
      = keep_outside 0 ((a, b) # map (range_offsets t) rs) t"
    unfolding t1_def using o(2) b
  proof (rule keep_outside_after_delete)
    fix x assume "x \<in> set (map (range_offsets t) rs)"
    then show "fst x \<le> a" using step(3) by auto
  qed
  have "foldl delete_range t (r # rs) = foldl delete_range t1 rs"
    by (simp add: d)
  also have "\<dots> = keep_outside 0 (map (range_offsets t1) rs) t1"
    using sp1 by (rule Cons.IH)
  also have "\<dots> = keep_outside 0 ((a, b) # map (range_offsets t) rs) t"
    unfolding m by (rule X)
  finally show ?case by (simp add: o(1))
qed

text \<open>The two shapes of a deletion.\<close>

lemma deletion_range_cases:
  assumes "valid_position t (range_start (c_range c))"
  obtains (whole)
      "deletion_range t c =
         Some \<lparr>range_start = \<lparr>line = line (range_start (c_range c)), character = 0\<rparr>,
               range_end = \<lparr>line = line (range_start (c_range c)) + 1, character = 0\<rparr>\<rparr>"
      "list_all is_space (take (character (range_start (c_range c)))
         (lines_of t ! line (range_start (c_range c))))"
    | (span)
      "deletion_range t c = Some (c_range c)"
      "\<not> list_all is_space (take (character (range_start (c_range c)))
         (lines_of t ! line (range_start (c_range c))))"
proof -
  from assms have "line (range_start (c_range c)) < lineCount t"
    by (simp add: valid_position_lines)
  then have l: "lineAt t (line (range_start (c_range c)))
      = Some (lines_of t ! line (range_start (c_range c)))"
    by (simp add: lineAt_def)
  show ?thesis
  proof (cases "list_all is_space (take (character (range_start (c_range c)))
         (lines_of t ! line (range_start (c_range c))))")
    case True
    with l show ?thesis
      by (intro whole) (simp_all add: deletion_range_def trim_Nil_iff)
  next
    case False
    with l show ?thesis
      by (intro span) (simp_all add: deletion_range_def trim_Nil_iff)
  qed
qed

lemma deletion_in_text:
  assumes "comment_in_text t c"
  shows "\<exists>r. deletion_range t c = Some r \<and> range_in_text t r"
proof -
  from assms have i: "inside_line t (range_start (c_range c))"
    and lt: "position_lt (range_start (c_range c)) (range_end (c_range c))"
    by (simp_all add: comment_in_text_def)
  from i have v: "valid_position t (range_start (c_range c))" by (rule inside_line_valid)
  from v show ?thesis
  proof (cases rule: deletion_range_cases)
    case whole
    from i have "range_in_text t
        \<lparr>range_start = \<lparr>line = line (range_start (c_range c)), character = 0\<rparr>,
         range_end = \<lparr>line = line (range_start (c_range c)) + 1, character = 0\<rparr>\<rparr>"
      by (auto simp: range_in_text_def inside_line_def position_lt_def)
    with whole(1) show ?thesis by simp
  next
    case span
    from i lt have "range_in_text t (c_range c)"
      by (simp add: range_in_text_def)
    with span(1) show ?thesis by simp
  qed
qed

text \<open>
  Of two comments, the deletion of the one that starts later cannot follow the deletion
  of the other: the order of the sort is the only one that can be safe.
\<close>

lemma earlier_start_not_first:
  assumes cx: "comment_in_text t cx" and cy: "comment_in_text t cy"
    and dx: "deletion_range t cx = Some rx" and dy: "deletion_range t cy = Some ry"
    and lt: "position_lt (range_start (c_range cy)) (range_start (c_range cx))"
  shows "\<not> safe_pair t ry rx"
proof
  assume sp: "safe_pair t ry rx"
  let ?sx = "range_start (c_range cx)" and ?sy = "range_start (c_range cy)"
  from cx have vx: "valid_position t ?sx" and lex: "position_lt ?sx (range_end (c_range cx))"
    by (simp_all add: comment_in_text_def inside_line_valid)
  from cy have vy: "valid_position t ?sy"
    by (simp add: comment_in_text_def inside_line_valid)
  have sy: "position_le (range_start ry) ?sy"
    using vy dy by (cases rule: deletion_range_cases) (auto simp: position_le_def)
  from sp consider (d) "position_le (range_end rx) (range_start ry)"
    | (n) "position_lt (range_start rx) (range_start ry)"
    by (auto simp: safe_pair_def)
  then show False
  proof cases
    case d
    from d sy have e: "position_le (range_end rx) ?sy" by (rule position_le_trans)
    from vx show False
    proof (cases rule: deletion_range_cases)
      case whole
      with dx have "rx = \<lparr>range_start = \<lparr>line = line ?sx, character = 0\<rparr>,
          range_end = \<lparr>line = line ?sx + 1, character = 0\<rparr>\<rparr>" by simp
      then have "range_end rx = \<lparr>line = line ?sx + 1, character = 0\<rparr>" by simp
      with e lt show False
        by (auto simp: position_le_def position_lt_def)
    next
      case span
      with dx have "rx = c_range cx" by simp
      then have "range_end rx = range_end (c_range cx)" by simp
      with e have "position_le (range_end (c_range cx)) ?sy" by simp
      with lex lt show False
        by (auto simp: position_le_def position_lt_def)
    qed
  next
    case n
    from vx show False
    proof (cases rule: deletion_range_cases)
      case span
      with dx have "rx = c_range cx" by simp
      then have "range_start rx = ?sx" by simp
      with n have "position_lt ?sx (range_start ry)" by simp
      with sy have "position_lt ?sx ?sy"
        by (auto simp: position_lt_def position_le_def)
      with lt show False
        by (auto simp: position_lt_def)
    next
      case whole
      with dx have "rx = \<lparr>range_start = \<lparr>line = line ?sx, character = 0\<rparr>,
          range_end = \<lparr>line = line ?sx + 1, character = 0\<rparr>\<rparr>" by simp
      then have sx0: "range_start rx = \<lparr>line = line ?sx, character = 0\<rparr>" by simp
      from n have n': "position_lt \<lparr>line = line ?sx, character = 0\<rparr> (range_start ry)"
        unfolding sx0 .
      from n' sy lt have l: "line ?sy = line ?sx" and l': "line (range_start ry) = line ?sx"
        by (auto simp: position_lt_def position_le_def)
      from lt l have c: "character ?sy < character ?sx"
        by (auto simp: position_lt_def)
      from n' l' have c': "0 < character (range_start ry)"
        by (auto simp: position_lt_def)
      from vy have "ry = c_range cy \<and>
          \<not> list_all is_space (take (character ?sy) (lines_of t ! line ?sy))"
      proof (cases rule: deletion_range_cases)
        case whole
        with dy c' show ?thesis by auto
      next
        case span
        with dy show ?thesis by simp
      qed
      then have y: "\<not> list_all is_space (take (character ?sy) (lines_of t ! line ?sy))"
        by simp
      have "set (take (character ?sy) (lines_of t ! line ?sx))
          \<subseteq> set (take (character ?sx) (lines_of t ! line ?sx))"
        using c by (intro set_take_subset_set_take) simp
      with whole(2) have "list_all is_space (take (character ?sy) (lines_of t ! line ?sx))"
        by (auto simp: list_all_iff)
      with y l show False by simp
    qed
  qed
qed

text \<open>The sort with pairwise different starts: each entry starts after those behind it.\<close>

lemma distinct_insert_item:
  "distinct (map f (insert_item x ys)) \<longleftrightarrow> f x \<notin> f ` set ys \<and> distinct (map f ys)"
  by (induction ys) (auto simp: set_insert_item)

lemma distinct_sort_descending:
  "distinct (map f (sort_descending xs)) \<longleftrightarrow> distinct (map f xs)"
  by (induction xs)
    (auto simp: sort_descending_def distinct_insert_item set_sort_descending [unfolded sort_descending_def])

lemma sorted_wrt_distinct:
  "sorted_wrt P ys \<Longrightarrow> distinct (map f ys) \<Longrightarrow> sorted_wrt (\<lambda>a b. P a b \<and> f a \<noteq> f b) ys"
  by (induction ys) auto

lemma position_le_neq: "position_le p q \<Longrightarrow> p \<noteq> q \<Longrightarrow> position_lt p (q :: position)"
  by (cases p; cases q) (auto simp: position_le_def position_lt_def)

lemma sorted_starts:
  assumes "distinct (map comment_start xs)"
  shows "sorted_wrt (\<lambda>a b. position_lt (comment_start b) (comment_start a)) (sort_descending xs)"
proof -
  have "distinct (map comment_start (sort_descending xs))"
    using assms by (simp add: distinct_sort_descending)
  with sorted_sort_descending [of xs]
  have "sorted_wrt (\<lambda>a b. sort_compare a b \<le> 0 \<and> comment_start a \<noteq> comment_start b)
      (sort_descending xs)"
    by (rule sorted_wrt_distinct)
  then show ?thesis
  proof (rule sorted_wrt_mono_rel [rotated])
    fix a b assume "sort_compare a b \<le> 0 \<and> comment_start a \<noteq> comment_start b"
    then show "position_lt (comment_start b) (comment_start a)"
      by (intro position_le_neq) (auto simp: sort_compare_le comment_start_def)
  qed
qed

lemma plan_of_sorted:
  assumes "\<And>x. x \<in> set ys \<Longrightarrow> comment_in_text t (item_comment x)"
    and "sorted_wrt (\<lambda>a b. position_lt (comment_start b) (comment_start a)) ys"
    and "\<And>x y r r'. x \<in> set ys \<Longrightarrow> y \<in> set ys \<Longrightarrow> comment_start x \<noteq> comment_start y \<Longrightarrow>
        deletion_range t (item_comment x) = Some r \<Longrightarrow>
        deletion_range t (item_comment y) = Some r' \<Longrightarrow> compatible t r r'"
  shows "\<exists>rs. those (map (\<lambda>x. deletion_range t (item_comment x)) ys) = Some rs \<and>
      safe_plan t rs \<and>
      (\<forall>r \<in> set rs. \<exists>x \<in> set ys. deletion_range t (item_comment x) = Some r)"
  using assms
proof (induction ys)
  case Nil
  show ?case by (simp add: safe_plan_def)
next
  case (Cons y ys)
  from Cons.prems(2) have later: "\<And>x. x \<in> set ys \<Longrightarrow> position_lt (comment_start x) (comment_start y)"
    and sorted: "sorted_wrt (\<lambda>a b. position_lt (comment_start b) (comment_start a)) ys"
    by auto
  have "\<exists>rs. those (map (\<lambda>x. deletion_range t (item_comment x)) ys) = Some rs \<and>
      safe_plan t rs \<and>
      (\<forall>r \<in> set rs. \<exists>x \<in> set ys. deletion_range t (item_comment x) = Some r)"
  proof (rule Cons.IH [OF _ sorted])
    fix x assume "x \<in> set ys"
    then show "comment_in_text t (item_comment x)" by (simp add: Cons.prems(1))
  next
    fix x z r r'
    assume "x \<in> set ys" "z \<in> set ys" "comment_start x \<noteq> comment_start z"
      "deletion_range t (item_comment x) = Some r" "deletion_range t (item_comment z) = Some r'"
    then show "compatible t r r'" by (intro Cons.prems(3) [of x z]) simp_all
  qed
  then obtain rs where rs: "those (map (\<lambda>x. deletion_range t (item_comment x)) ys) = Some rs"
    and sp: "safe_plan t rs"
    and from_ys: "\<And>r. r \<in> set rs \<Longrightarrow> \<exists>x \<in> set ys. deletion_range t (item_comment x) = Some r"
    by blast
  have cy: "comment_in_text t (item_comment y)" by (simp add: Cons.prems(1))
  then obtain r where r: "deletion_range t (item_comment y) = Some r" and rt: "range_in_text t r"
    using deletion_in_text by blast
  have first: "safe_pair t r r'" if "r' \<in> set rs" for r'
  proof -
    from from_ys [OF that] obtain x where x: "x \<in> set ys"
      and r': "deletion_range t (item_comment x) = Some r'" by blast
    have cx: "comment_in_text t (item_comment x)" using x by (simp add: Cons.prems(1))
    from later [OF x] have lt: "position_lt (comment_start x) (comment_start y)" .
    then have "comment_start y \<noteq> comment_start x"
      by (auto simp: position_lt_def)
    with x r r' have "compatible t r r'"
      by (intro Cons.prems(3) [of y x]) simp_all
    moreover have "\<not> safe_pair t r' r"
      using cy cx r r' lt [unfolded comment_start_def] by (rule earlier_start_not_first)
    ultimately show ?thesis by (simp add: compatible_def)
  qed
  from rs r have "those (map (\<lambda>x. deletion_range t (item_comment x)) (y # ys)) = Some (r # rs)"
    by simp
  moreover from sp rt first have "safe_plan t (r # rs)"
    by (simp add: safe_plan_def)
  moreover have "\<forall>r' \<in> set (r # rs). \<exists>x \<in> set (y # ys). deletion_range t (item_comment x) = Some r'"
    using r from_ys by auto
  ultimately show ?case by blast
qed

lemma safe_selection_plan:
  assumes "safe_selection t xs"
  shows "\<exists>rs. removal_plan t xs = Some rs \<and> safe_plan t rs"
proof -
  from assms have d: "distinct (map comment_start xs)"
    and c: "\<And>x. x \<in> set xs \<Longrightarrow> comment_in_text t (item_comment x)"
    and p: "\<And>x y. x \<in> set xs \<Longrightarrow> y \<in> set xs \<Longrightarrow> comment_start x \<noteq> comment_start y \<Longrightarrow>
        (case deletion_range t (item_comment x) of
             None \<Rightarrow> False
           | Some r \<Rightarrow>
               (case deletion_range t (item_comment y) of
                  None \<Rightarrow> False
                | Some r' \<Rightarrow> compatible t r r'))"
    by (auto simp: safe_selection_def list_all_iff)
  have "\<exists>rs. those (map (\<lambda>x. deletion_range t (item_comment x)) (sort_descending xs)) = Some rs \<and>
      safe_plan t rs \<and>
      (\<forall>r \<in> set rs. \<exists>x \<in> set (sort_descending xs). deletion_range t (item_comment x) = Some r)"
  proof (rule plan_of_sorted)
    fix x assume "x \<in> set (sort_descending xs)"
    then show "comment_in_text t (item_comment x)" by (simp add: set_sort_descending c)
  next
    show "sorted_wrt (\<lambda>a b. position_lt (comment_start b) (comment_start a)) (sort_descending xs)"
      using d by (rule sorted_starts)
  next
    fix x y r r'
    assume "x \<in> set (sort_descending xs)" "y \<in> set (sort_descending xs)"
      "comment_start x \<noteq> comment_start y"
      "deletion_range t (item_comment x) = Some r" "deletion_range t (item_comment y) = Some r'"
    with p [of x y] show "compatible t r r'" by (simp add: set_sort_descending)
  qed
  then show ?thesis by (auto simp: removal_plan_def)
qed

lemma cleanComments_plan_selection:
  "cleanComments_plan d = removal_plan (getText d) (cleanComments_selection d)"
proof -
  obtain cs where "extractComments d = Some cs" using extractComments_total by blast
  then show ?thesis
    by (simp add: cleanComments_plan_def cleanComments_selection_def analyze_all_def)
qed

text \<open>
  The order of the sort is needed: the two deletions of the document \<^verbatim>\<open>   // noise\<close>,
  \<^verbatim>\<open>x = 1; // noise\<close> do not overlap, and applied in ascending order the second one
  finds its line moved up and removes nothing.
\<close>

lemma ascending_order_differs:
  "apply_sequentially (getText doc_two) (rev plan_two) = ''x = 1; // noise'' \<and>
   reference_removal (getText doc_two) (rev plan_two) = ''x = 1; ''"
  by code_simp

text \<open>
  Claim C1 as stated fails when a deletion that takes a line terminator away is followed
  by a deletion that reaches behind its start. In the JavaScript document \<^verbatim>\<open>x /* a\<close>,
  \<^verbatim>\<open>// b\<close>, \<^verbatim>\<open>c */ y\<close> the single-line pattern matches inside the block comment; both
  comments are removable, and the plan is the whole second line, then the block
  comment's span. Applied one by one, the second deletion finds its end line gone and
  deletes up to the end of the buffer, leaving \<^verbatim>\<open>x \<close>; the reference algorithm leaves
  \<^verbatim>\<open>x  y\<close>.
\<close>

theorem overlapping_plan_counterexample:
  "cleanComments_plan doc_overlap = Some plan_overlap \<and>
   apply_sequentially (getText doc_overlap) plan_overlap = ''x '' \<and>
   reference_removal (getText doc_overlap) plan_overlap = ''x  y'' \<and>
   apply_sequentially (getText doc_overlap) plan_overlap \<noteq>
     reference_removal (getText doc_overlap) plan_overlap"
  by code_simp

text \<open>
  Two more documents on which the two algorithms differ. In \<^verbatim>\<open>/* a */ /* b\<close>,
  \<^verbatim>\<open>c */\<close>, \<^verbatim>\<open>end\<close> the comments do not overlap, but the first one is deleted with
  its whole line: after the span of the second is gone the whole line is the joined line,
  and \<^verbatim>\<open>end\<close> is left where the reference algorithm leaves an empty line and
  \<^verbatim>\<open>end\<close>. In \<^verbatim>\<open>x // a /* b\<close>, \<^verbatim>\<open> c */ d\<close> the block comment opens inside the line
  comment and code follows it: after its span is gone the line comment's end is read
  behind that code. None of the three selections is safe.
\<close>

lemma block_behind_comment_differs:
  "cleanComments_plan doc_block_behind = Some plan_block_behind \<and>
   apply_sequentially (getText doc_block_behind) plan_block_behind = ''end'' \<and>
   reference_removal (getText doc_block_behind) plan_block_behind = ''\<newline>end''"
  by code_simp

lemma block_in_line_comment_differs:
  "cleanComments_plan doc_block_in_line_code = Some plan_block_in_line \<and>
   apply_sequentially (getText doc_block_in_line_code) plan_block_in_line = ''x '' \<and>
   reference_removal (getText doc_block_in_line_code) plan_block_in_line = ''x  d''"
  by code_simp

lemma differing_selections_not_safe:
  "\<not> safe_selection (getText doc_overlap) (cleanComments_selection doc_overlap) \<and>
   \<not> safe_selection (getText doc_block_behind) (cleanComments_selection doc_block_behind) \<and>
   \<not> safe_selection (getText doc_block_in_line_code)
       (cleanComments_selection doc_block_in_line_code)"
  by code_simp

text \<open>
  Claim C1, amended. For every text and every selection of comments that is safe for the
  text, \<^verbatim>\<open>removeComments\<close> issues a plan (no line it asks for is missing), and applying
  the plan's deletions one by one in the plan's order, the order of the sort, gives the
  same text as the reference algorithm, which drops every character that lies in one of
  the ranges of the original text. A selection is safe when its comments start at
  pairwise different positions, each comment starts at a character of the text and ends
  behind its start, and of the deletions of any two comments one can follow the other:
  it ends at or before the other's start, or it starts before the other and one of the
  two ends the text, or the other runs to the end of a line and it ends on the line on
  which the other starts, or the other lies within one line and it ends on a later line
  or at the end of a line. The condition is on the selection, in any order; that the plan
  issues the deletions in an order in which each can follow those before it is the work
  of the sort.
\<close>

theorem safe_selection_sequential_is_reference:
  assumes "safe_selection t commentsToRemove"
  shows "\<exists>rs. removal_plan t commentsToRemove = Some rs \<and>
    apply_sequentially t rs = reference_removal t rs"
proof -
  from safe_selection_plan [OF assms] obtain rs
    where rs: "removal_plan t commentsToRemove = Some rs" and sp: "safe_plan t rs" by blast
  from sp have "foldl delete_range t rs = keep_outside 0 (map (range_offsets t) rs) t"
    by (rule safe_plan_sequential)
  with rs show ?thesis
    by (simp add: apply_sequentially_def reference_removal_def)
qed

theorem safe_selection_sequential_is_reference_witness:
  "safe_selection (getText doc_two) (cleanComments_selection doc_two) \<and>
   cleanComments_plan doc_two = Some plan_two \<and>
   apply_sequentially (getText doc_two) plan_two = reference_removal (getText doc_two) plan_two \<and>
   apply_sequentially (getText doc_two) plan_two = ''x = 1; '' \<and>
   safe_selection (getText doc_same_line) (cleanComments_selection doc_same_line) \<and>
   cleanComments_plan doc_same_line = Some plan_same_line \<and>
   apply_sequentially (getText doc_same_line) plan_same_line = reference_removal (getText doc_same_line) plan_same_line \<and>
   apply_sequentially (getText doc_same_line) plan_same_line = [] \<and>
   safe_selection (getText doc_inside_block) (cleanComments_selection doc_inside_block) \<and>
   cleanComments_plan doc_inside_block = Some plan_inside_block \<and>
   apply_sequentially (getText doc_inside_block) plan_inside_block = reference_removal (getText doc_inside_block) plan_inside_block \<and>
   apply_sequentially (getText doc_inside_block) plan_inside_block = ''y; \<newline>z'' \<and>
   safe_selection (getText doc_block_to_end) (cleanComments_selection doc_block_to_end) \<and>
   cleanComments_plan doc_block_to_end = Some plan_overlap \<and>
   apply_sequentially (getText doc_block_to_end) plan_overlap = reference_removal (getText doc_block_to_end) plan_overlap \<and>
   apply_sequentially (getText doc_block_to_end) plan_overlap = ''x '' \<and>
   safe_selection (getText doc_line_to_end) (cleanComments_selection doc_line_to_end) \<and>
   cleanComments_plan doc_line_to_end = Some plan_line_to_end \<and>
   apply_sequentially (getText doc_line_to_end) plan_line_to_end = reference_removal (getText doc_line_to_end) plan_line_to_end \<and>
   apply_sequentially (getText doc_line_to_end) plan_line_to_end = ''x '' \<and>
   safe_selection (getText doc_block_in_line) (cleanComments_selection doc_block_in_line) \<and>
   cleanComments_plan doc_block_in_line = Some plan_block_in_line \<and>
   apply_sequentially (getText doc_block_in_line) plan_block_in_line = reference_removal (getText doc_block_in_line) plan_block_in_line \<and>
   apply_sequentially (getText doc_block_in_line) plan_block_in_line = ''x \<newline>q''"
proof -
  have s1: "safe_selection (getText doc_two) (cleanComments_selection doc_two)"
    by code_simp
  have p1: "cleanComments_plan doc_two = Some plan_two"
    by code_simp
  have v1: "apply_sequentially (getText doc_two) plan_two = ''x = 1; ''"
    by code_simp
  from safe_selection_sequential_is_reference [OF s1] p1
  have e1: "apply_sequentially (getText doc_two) plan_two = reference_removal (getText doc_two) plan_two"
    by (simp add: cleanComments_plan_selection)
  have s2: "safe_selection (getText doc_same_line) (cleanComments_selection doc_same_line)"
    by code_simp
  have p2: "cleanComments_plan doc_same_line = Some plan_same_line"
    by code_simp
  have v2: "apply_sequentially (getText doc_same_line) plan_same_line = []"
    by code_simp
  from safe_selection_sequential_is_reference [OF s2] p2
  have e2: "apply_sequentially (getText doc_same_line) plan_same_line = reference_removal (getText doc_same_line) plan_same_line"
    by (simp add: cleanComments_plan_selection)
  have s3: "safe_selection (getText doc_inside_block) (cleanComments_selection doc_inside_block)"
    by code_simp
  have p3: "cleanComments_plan doc_inside_block = Some plan_inside_block"
    by code_simp
  have v3: "apply_sequentially (getText doc_inside_block) plan_inside_block = ''y; \<newline>z''"
    by code_simp
  from safe_selection_sequential_is_reference [OF s3] p3
  have e3: "apply_sequentially (getText doc_inside_block) plan_inside_block = reference_removal (getText doc_inside_block) plan_inside_block"
    by (simp add: cleanComments_plan_selection)
  have s4: "safe_selection (getText doc_block_to_end) (cleanComments_selection doc_block_to_end)"
    by code_simp
  have p4: "cleanComments_plan doc_block_to_end = Some plan_overlap"
    by code_simp
  have v4: "apply_sequentially (getText doc_block_to_end) plan_overlap = ''x ''"
    by code_simp
  from safe_selection_sequential_is_reference [OF s4] p4
  have e4: "apply_sequentially (getText doc_block_to_end) plan_overlap = reference_removal (getText doc_block_to_end) plan_overlap"
    by (simp add: cleanComments_plan_selection)
  have s5: "safe_selection (getText doc_line_to_end) (cleanComments_selection doc_line_to_end)"
    by code_simp
  have p5: "cleanComments_plan doc_line_to_end = Some plan_line_to_end"
    by code_simp
  have v5: "apply_sequentially (getText doc_line_to_end) plan_line_to_end = ''x ''"
    by code_simp
  from safe_selection_sequential_is_reference [OF s5] p5
  have e5: "apply_sequentially (getText doc_line_to_end) plan_line_to_end = reference_removal (getText doc_line_to_end) plan_line_to_end"
    by (simp add: cleanComments_plan_selection)
  have s6: "safe_selection (getText doc_block_in_line) (cleanComments_selection doc_block_in_line)"
    by code_simp
  have p6: "cleanComments_plan doc_block_in_line = Some plan_block_in_line"
    by code_simp
  have v6: "apply_sequentially (getText doc_block_in_line) plan_block_in_line = ''x \<newline>q''"
    by code_simp
  from safe_selection_sequential_is_reference [OF s6] p6
  have e6: "apply_sequentially (getText doc_block_in_line) plan_block_in_line = reference_removal (getText doc_block_in_line) plan_block_in_line"
    by (simp add: cleanComments_plan_selection)
  from s1 p1 e1 v1 s2 p2 e2 v2 s3 p3 e3 v3 s4 p4 e4 v4 s5 p5 e5 v5 s6 p6 e6 v6 show ?thesis
    by (intro conjI)
qed

end
